theory Spec2Isabelle
  imports Main "HOL-Library.Monad_Syntax" "HOL-Library.Sublist"
begin

section \<open>Terminal events and keys\<close>

text \<open>
  Modelled from the spec: the declarations of \<open>ui.Key\<close>, \<open>ui.K\<close> and \<open>term.Event\<close>
  are not among the source files. A key is a rune together with a modifier bit mask, as
  the widget reads it (\<open>key.Rune\<close>, \<open>key.Mod\<close>). The rune is Go's \<open>int32\<close>; no
  arithmetic is done on it, so it is an \<open>int\<close> here. Function keys have negative runes;
  \<open>ui.K r\<close> is the unmodified key of rune \<open>r\<close>.
\<close>

record Key =
  Rune :: int
  Mod :: nat

definition K :: "int \<Rightarrow> Key" where
  "K r = \<lparr>Rune = r, Mod = 0\<rparr>"

text \<open>
  Modelled from the spec: the constants \<open>ui.Enter\<close> and \<open>ui.Backspace\<close> of package
  \<open>edit/ui\<close> are not among the source files. The named keys Enter and Backspace are
  aliases of their ASCII representation: the line feed and DEL.
\<close>

definition Enter :: int where
  "Enter = 0x0A"

definition Backspace :: int where
  "Backspace = 0x7F"

text \<open>
  An event is a key event, a paste setting (the start or the end of a bracketed paste)
  or of another type, which the widget does not handle: \<open>OtherEvent\<close>.
\<close>

datatype Event = KeyEvent Key | PasteSetting bool | OtherEvent

section \<open>Widgets, handlers and the overlay wrapper (clitypes/widget.go)\<close>

text \<open>
  A \<open>Handler\<close> tries to handle an event and reports whether it did; a \<open>Renderer\<close>
  renders onto a region of bounded width and height. Both are interface methods of
  objects with state of their own: here they are functions on a state \<open>'s\<close> that
  holds whatever the base widget and the overlay can read and write, returned updated.
\<close>

type_synonym 's Handler = "Event \<Rightarrow> 's \<Rightarrow> bool \<times> 's"

type_synonym ('s, 'b) Renderer = "int \<Rightarrow> int \<Rightarrow> 's \<Rightarrow> 'b \<times> 's"

record ('s, 'b) Widget =
  Render :: "('s, 'b) Renderer"
  Handle :: "'s Handler"

record ('s, 'b) widgetWithOverlayHandler =
  base :: "('s, 'b) Widget"
  overlay :: "'s Handler"

definition overlay_Render ::
  "('s, 'b) widgetWithOverlayHandler \<Rightarrow> ('s, 'b) Renderer" where
  "overlay_Render w width height = Render (base w) width height"

text \<open>
  \<open>w.overlay.Handle(event) || w.base.Handle(event)\<close>: Go's \<open>||\<close> evaluates its right
  operand only when the left one is false.
\<close>

definition overlay_Handle :: "('s, 'b) widgetWithOverlayHandler \<Rightarrow> 's Handler" where
  "overlay_Handle w event s =
     (case overlay w event s of
        (True, s') \<Rightarrow> (True, s')
      | (False, s') \<Rightarrow> Handle (base w) event s')"

definition AddOverlayHandler :: "('s, 'b) Widget \<Rightarrow> 's Handler \<Rightarrow> ('s, 'b) Widget" where
  "AddOverlayHandler w h =
     (let c = \<lparr>base = w, overlay = h\<rparr>
      in \<lparr>Render = overlay_Render c, Handle = overlay_Handle c\<rparr>)"

section \<open>UTF-8 (Go's \<open>unicode/utf8\<close>, \<open>bytes\<close>, \<open>strings\<close> and \<open>unicode\<close>)\<close>

text \<open>
  A Go string is a sequence of bytes, here a \<open>string\<close> (a list of 8-bit \<open>char\<close>s);
  \<open>len\<close> counts bytes. The widget calls into Go's standard library; the functions
  below follow the library's implementation. Only the width that
  \<open>DecodeLastRuneInString\<close> returns is kept: the widget discards the rune.
\<close>

abbreviation byte :: "char \<Rightarrow> nat" where
  "byte c \<equiv> of_char c"

text \<open>\<open>b&0xC0 != 0x80\<close>: the byte is not a continuation byte \<open>10xxxxxx\<close>.\<close>

definition RuneStart :: "char \<Rightarrow> bool" where
  "RuneStart b = (\<not> (0x80 \<le> byte b \<and> byte b \<le> 0xBF))"

text \<open>
  The table \<open>first\<close>: information about the first byte of an encoding. \<open>0xF0\<close>
  (\<open>as\<close>) is ASCII, \<open>0xF1\<close> (\<open>xx\<close>) is invalid; otherwise the low three bits are
  the size and the high four bits index \<open>acceptRanges\<close>, the range of the second byte.
\<close>

definition first :: "nat \<Rightarrow> nat" where
  "first b =
     (if b < 0x80 then 0xF0
      else if b < 0xC2 then 0xF1
      else if b < 0xE0 then 0x02
      else if b = 0xE0 then 0x13
      else if b < 0xED then 0x03
      else if b = 0xED then 0x23
      else if b < 0xF0 then 0x03
      else if b = 0xF0 then 0x34
      else if b < 0xF4 then 0x04
      else if b = 0xF4 then 0x44
      else 0xF1)"

definition acceptRanges :: "nat \<Rightarrow> nat \<times> nat" where
  "acceptRanges i =
     (if i = 0 then (0x80, 0xBF)
      else if i = 1 then (0xA0, 0xBF)
      else if i = 2 then (0x80, 0x9F)
      else if i = 3 then (0x90, 0xBF)
      else if i = 4 then (0x80, 0x8F)
      else (0, 0))"

definition DecodeRuneInString_size :: "string \<Rightarrow> nat" where
  "DecodeRuneInString_size s =
     (let n = length s in
      if n < 1 then 0
      else
        let s0 = byte (s ! 0); x = first s0 in
        if x \<ge> 0xF0 then 1
        else
          let sz = x mod 8; (lo, hi) = acceptRanges (x div 16) in
          if n < sz then 1
          else
            let s1 = byte (s ! 1) in
            if s1 < lo \<or> hi < s1 then 1
            else if sz \<le> 2 then 2
            else
              let s2 = byte (s ! 2) in
              if s2 < 0x80 \<or> 0xBF < s2 then 1
              else if sz \<le> 3 then 3
              else
                let s3 = byte (s ! 3) in
                if s3 < 0x80 \<or> 0xBF < s3 then 1 else 4)"

text \<open>
  The backwards scan of \<open>DecodeLastRuneInString\<close>:
  \<open>for start--; start >= lim; start-- { if RuneStart(s[start]) { break } }\<close>,
  entered after the first decrement.
\<close>

function scan_back :: "string \<Rightarrow> int \<Rightarrow> int \<Rightarrow> int" where
  "scan_back s lim start =
     (if start \<ge> lim
      then (if RuneStart (s ! nat start) then start else scan_back s lim (start - 1))
      else start)"
  by pat_completeness auto
termination
  by (relation "measure (\<lambda>(s, lim, start). nat (start - lim + 1))") auto

definition DecodeLastRuneInString_size :: "string \<Rightarrow> nat" where
  "DecodeLastRuneInString_size s =
     (let end = int (length s) in
      if end = 0 then 0
      else
        let start = end - 1 in
        if byte (s ! nat start) < 0x80 then 1
        else
          let lim = (if end - 4 < 0 then 0 else end - 4);
              start = scan_back s lim (start - 1);
              start = (if start < 0 then 0 else start);
              size = DecodeRuneInString_size (drop (nat start) s)
          in if start + int size \<noteq> end then 1 else size)"

text \<open>
  \<open>EncodeRune\<close>, which is also the conversion \<open>string(r)\<close> of a rune: a rune that
  is negative, beyond \<open>0x10FFFF\<close> or a surrogate is written as \<open>U+FFFD\<close>.
\<close>

definition EncodeRune :: "int \<Rightarrow> string" where
  "EncodeRune r =
     (let i = nat r in
      if 0 \<le> r \<and> i \<le> 0x7F then [char_of i]
      else if 0 \<le> r \<and> i \<le> 0x7FF then
        [char_of (0xC0 + i div 64), char_of (0x80 + i mod 64)]
      else if r < 0 \<or> i > 0x10FFFF \<or> (0xD800 \<le> i \<and> i \<le> 0xDFFF) then
        [char_of (0xEF::nat), char_of (0xBF::nat), char_of (0xBD::nat)]
      else if i \<le> 0xFFFF then
        [char_of (0xE0 + i div 4096), char_of (0x80 + (i div 64) mod 64),
         char_of (0x80 + i mod 64)]
      else
        [char_of (0xF0 + i div 262144), char_of (0x80 + (i div 4096) mod 64),
         char_of (0x80 + (i div 64) mod 64), char_of (0x80 + i mod 64)])"

text \<open>
  \<open>bytes.Buffer.WriteRune\<close>: a rune below \<open>utf8.RuneSelf\<close> is written as the single
  byte \<open>byte(r)\<close>, any other rune as \<open>EncodeRune\<close> writes it.
\<close>

definition WriteRune :: "string \<Rightarrow> int \<Rightarrow> string" where
  "WriteRune buf r =
     (if r < 0x80 then buf @ [char_of (nat (r mod 256))] else buf @ EncodeRune r)"

text \<open>\<open>strings.HasSuffix\<close>.\<close>

definition HasSuffix :: "string \<Rightarrow> string \<Rightarrow> bool" where
  "HasSuffix s suf =
     (length s \<ge> length suf \<and> drop (length s - length suf) s = suf)"

text \<open>
  What the widget takes from outside this package and the standard library's tables:
  \<open>parse.Quote\<close>, and the Unicode range tables behind \<open>unicode.IsGraphic\<close> for runes
  beyond Latin-1 (\<open>In(r, GraphicRanges...)\<close>). Both are parameters.
\<close>

record extern =
  Quote :: "string \<Rightarrow> string"
  GraphicRanges :: "int \<Rightarrow> bool"

text \<open>
  \<open>unicode.IsGraphic\<close>: for \<open>uint32(r) <= MaxLatin1\<close> the Latin-1 property table
  decides (graphic are \<open>0x20..0x7E\<close> and \<open>0xA0..0xFF\<close> without the soft hyphen
  \<open>0xAD\<close>), the range tables otherwise.
\<close>

definition IsGraphic :: "extern \<Rightarrow> int \<Rightarrow> bool" where
  "IsGraphic x r =
     (if 0 \<le> r \<and> r \<le> 0xFF
      then (0x20 \<le> r \<and> r \<le> 0x7E) \<or> (0xA0 \<le> r \<and> r \<noteq> 0xAD)
      else GraphicRanges x r)"

section \<open>The code area widget (el/codearea/codearea.go)\<close>

text \<open>
  A Go slice expression \<open>s[:j]\<close> or \<open>s[i:]\<close> panics unless the index lies in
  \<open>[0, len(s)]\<close>. The only way the widget's code can fail is such a panic: it is the
  result \<open>None\<close>.
\<close>

definition slice_to :: "string \<Rightarrow> int \<Rightarrow> string option" where
  "slice_to s j = (if 0 \<le> j \<and> j \<le> int (length s) then Some (take (nat j) s) else None)"

definition slice_from :: "string \<Rightarrow> int \<Rightarrow> string option" where
  "slice_from s i = (if 0 \<le> i \<and> i \<le> int (length s) then Some (drop (nat i) s) else None)"

text \<open>
  Modelled from the spec: the declarations of \<open>CodeBuffer\<close> and \<open>State\<close> and the method
  \<open>CodeBuffer.InsertAtDot\<close> are not among the source files. The buffer is a content and
  a dot, a byte offset into the content; inserting at the dot splices the text into the
  content at the dot and advances the dot by the length of the text. The state owns one
  buffer; \<open>Handle\<close> reads and writes no other member of it.
\<close>

record CodeBuffer =
  Content :: string
  Dot :: int

record State =
  CodeBuffer :: CodeBuffer

definition InsertAtDot :: "CodeBuffer \<Rightarrow> string \<Rightarrow> CodeBuffer option" where
  "InsertAtDot c text =
     do {
       a \<leftarrow> slice_to (Content c) (Dot c);
       b \<leftarrow> slice_from (Content c) (Dot c);
       Some \<lparr>Content = a @ text @ b, Dot = Dot c + int (length text)\<rparr>
     }"

text \<open>
  The configuration, as \<open>init\<close> leaves it (no member is nil). The overlay handler may
  read and write the public state. \<open>Abbreviations\<close> calls its argument once for each
  pair, in order: it is the list of the pairs. \<open>QuotePaste\<close> is the value it returns.
  \<open>OnSubmit\<close> is an effect: its calls are recorded in the widget's \<open>calls\<close>. The
  members used only by \<open>Render\<close> are left out.
\<close>

record Config =
  OverlayHandler :: "State Handler"
  Abbreviations :: "(string \<times> string) list"
  QuotePaste :: bool

text \<open>
  Modelled from the spec: \<open>el.DummyHandler\<close> is not among the source files. It is
  the default of the overlay handler, a handler that handles no event; the other two
  defaults are in the source.
\<close>

definition DummyHandler :: "State Handler" where
  "DummyHandler event s = (False, s)"

definition dummyAbbreviations :: "(string \<times> string) list" where
  "dummyAbbreviations = []"

definition dummyQuotePaste :: bool where
  "dummyQuotePaste = False"

text \<open>
  The calls the claims count: of \<open>resetInserts\<close> and of the submit callback with
  its argument.
\<close>

datatype call = Call_resetInserts | Call_OnSubmit string

text \<open>
  The widget. \<open>calls\<close> is not a member of the Go struct: it is the record of the
  calls made so far, oldest first. The mutex is left out: \<open>Handle\<close> runs on one thread.
\<close>

record widget =
  State :: State
  Config :: Config
  inserts :: string
  lastCodeBuffer :: CodeBuffer
  pasting :: bool
  pasteBuffer :: string
  calls :: "call list"

definition NewWithState :: "Config \<Rightarrow> State \<Rightarrow> widget" where
  "NewWithState cfg state =
     \<lparr>State = state, Config = cfg, inserts = [],
      lastCodeBuffer = \<lparr>Content = [], Dot = 0\<rparr>,
      pasting = False, pasteBuffer = [], calls = []\<rparr>"

definition New :: "Config \<Rightarrow> widget" where
  "New cfg = NewWithState cfg \<lparr>CodeBuffer = \<lparr>Content = [], Dot = 0\<rparr>\<rparr>"

definition Submit :: "widget \<Rightarrow> widget" where
  "Submit w = w\<lparr>calls := calls w @ [Call_OnSubmit (Content (CodeBuffer (State w)))]\<rparr>"

definition MutateCodeAreaState :: "widget \<Rightarrow> (State \<Rightarrow> State option) \<Rightarrow> widget option" where
  "MutateCodeAreaState w f = do { s \<leftarrow> f (State w); Some (w\<lparr>State := s\<rparr>) }"

definition CopyState :: "widget \<Rightarrow> State" where
  "CopyState w = State w"

definition resetInserts :: "widget \<Rightarrow> widget" where
  "resetInserts w =
     w\<lparr>inserts := [], lastCodeBuffer := \<lparr>Content = [], Dot = 0\<rparr>,
       calls := calls w @ [Call_resetInserts]\<rparr>"

definition handlePasteSetting :: "extern \<Rightarrow> widget \<Rightarrow> bool \<Rightarrow> (widget \<times> bool) option" where
  "handlePasteSetting x w0 start =
     (let w = resetInserts w0 in
      if start then Some (w\<lparr>pasting := True\<rparr>, True)
      else
        do {
          let text = pasteBuffer w;
          let text = (if QuotePaste (Config w) then Quote x text else text);
          w \<leftarrow> MutateCodeAreaState w
                 (\<lambda>s. do { c \<leftarrow> InsertAtDot (CodeBuffer s) text;
                           Some (s\<lparr>CodeBuffer := c\<rparr>) });
          Some (w\<lparr>pasting := False, pasteBuffer := []\<rparr>, True)
        })"

definition isFuncKey :: "Key \<Rightarrow> bool" where
  "isFuncKey key = (Mod key \<noteq> 0 \<or> Rune key < 0)"

text \<open>
  The visitor passed to \<open>Abbreviations\<close>: it keeps in \<open>(abbr, full)\<close> the pair
  chosen so far.
\<close>

definition visit :: "string \<Rightarrow> string \<times> string \<Rightarrow> string \<times> string \<Rightarrow> string \<times> string" where
  "visit ins chosen pair =
     (if HasSuffix ins (fst pair) \<and> length (fst pair) > length (fst chosen)
      then pair else chosen)"

definition handleKeyEvent :: "extern \<Rightarrow> widget \<Rightarrow> Key \<Rightarrow> (widget \<times> bool) option" where
  "handleKeyEvent x w key =
     (if pasting w then
        (if isFuncKey key then Some (w, True)
         else Some (w\<lparr>pasteBuffer := WriteRune (pasteBuffer w) (Rune key)\<rparr>, True))
      else if key = K Enter then
        Some (Submit (resetInserts w), True)
      else if key = K Backspace then
        do {
          w \<leftarrow> MutateCodeAreaState (resetInserts w)
                 (\<lambda>s. do {
                    let c = CodeBuffer s;
                    pre \<leftarrow> slice_to (Content c) (Dot c);
                    let chop = int (DecodeLastRuneInString_size pre);
                    a \<leftarrow> slice_to (Content c) (Dot c - chop);
                    b \<leftarrow> slice_from (Content c) (Dot c);
                    Some (s\<lparr>CodeBuffer := \<lparr>Content = a @ b, Dot = Dot c - chop\<rparr>\<rparr>)
                  });
          Some (w, True)
        }
      else if isFuncKey key \<or> \<not> IsGraphic x (Rune key) then
        Some (resetInserts w, False)
      else
        do {
          let w = (if lastCodeBuffer w \<noteq> CodeBuffer (State w) then resetInserts w else w);
          let s = EncodeRune (Rune key);
          c \<leftarrow> InsertAtDot (CodeBuffer (State w)) s;
          let w = w\<lparr>State := (State w)\<lparr>CodeBuffer := c\<rparr>\<rparr>;
          let w = w\<lparr>inserts := inserts w @ s\<rparr>;
          let w = w\<lparr>lastCodeBuffer := CodeBuffer (State w)\<rparr>;
          let (abbr, full) = foldl (visit (inserts w)) ([], []) (Abbreviations (Config w));
          if length abbr > 0 then
            do {
              let c = CodeBuffer (State w);
              pre \<leftarrow> slice_to (Content c) (Dot c - int (length abbr));
              post \<leftarrow> slice_from (Content c) (Dot c);
              let w = w\<lparr>State := (State w)\<lparr>CodeBuffer :=
                         \<lparr>Content = pre @ full @ post,
                          Dot = Dot c - int (length abbr) + int (length full)\<rparr>\<rparr>\<rparr>;
              Some (resetInserts w, True)
            }
          else Some (w, True)
        })"

text \<open>
  \<open>widget.Handle\<close>: the overlay handler first, then the widget's own handling by the
  type of the event.
\<close>

definition widget_Handle :: "extern \<Rightarrow> widget \<Rightarrow> Event \<Rightarrow> (widget \<times> bool) option" where
  "widget_Handle x w0 event =
     (case OverlayHandler (Config w0) event (State w0) of
        (True, s) \<Rightarrow> Some (w0\<lparr>State := s\<rparr>, True)
      | (False, s) \<Rightarrow>
          (let w = w0\<lparr>State := s\<rparr> in
           case event of
             PasteSetting start \<Rightarrow> handlePasteSetting x w start
           | KeyEvent key \<Rightarrow> handleKeyEvent x w key
           | OtherEvent \<Rightarrow> Some (w, False)))"

text \<open>A sequence of events, handled one after the other; a panic ends it.\<close>

fun Handle_all :: "extern \<Rightarrow> widget \<Rightarrow> Event list \<Rightarrow> widget option" where
  "Handle_all x w [] = Some w"
| "Handle_all x w (e # es) =
     (case widget_Handle x w e of None \<Rightarrow> None | Some (w', handled) \<Rightarrow> Handle_all x w' es)"

section \<open>Asynchronous sources (app_spec.go)\<close>

















section \<open>Specification of the abbreviation choice\<close>

text \<open>
  The choice in the specification's words: among the pairs whose abbreviation is a
  trailing substring of the inserted text, the one with the longest abbreviation, the
  first in the order of the enumeration when several are as long.
\<close>

definition longest_match :: "string \<Rightarrow> (string \<times> string) list \<Rightarrow> (string \<times> string) option" where
  "longest_match ins abbrs =
     find (\<lambda>p. suffix (fst p) ins
               \<and> (\<forall>q\<in>set abbrs. suffix (fst q) ins \<longrightarrow> length (fst q) \<le> length (fst p)))
          abbrs"

text \<open>
  The pairs that replace the pair \<open>ch\<close> chosen so far when the visitor runs over
  \<open>abbrs\<close>: those of \<open>longest_match\<close> with an abbreviation longer than that of \<open>ch\<close>.
\<close>

definition pick :: "string \<Rightarrow> string \<times> string \<Rightarrow> (string \<times> string) list \<Rightarrow> string \<times> string \<Rightarrow> bool" where
  "pick ins ch abbrs p \<longleftrightarrow>
     suffix (fst p) ins \<and> length (fst ch) < length (fst p)
     \<and> (\<forall>q\<in>set abbrs. suffix (fst q) ins \<longrightarrow> length (fst q) \<le> length (fst p))"

section \<open>Well-formed text and the buffer invariant\<close>

text \<open>
  The byte sequences that encode one code point in UTF-8 (the table of well-formed byte
  sequences of the Unicode standard): one byte below \<open>0x80\<close>, or a lead byte followed
  by one to three continuation bytes, without overlong forms, surrogates and values
  beyond \<open>U+10FFFF\<close>.
\<close>

definition cont :: "char \<Rightarrow> bool" where
  "cont b = (0x80 \<le> byte b \<and> byte b \<le> 0xBF)"

definition utf8_char :: "string \<Rightarrow> bool" where
  "utf8_char e =
     (case e of
        [a] \<Rightarrow> byte a \<le> 0x7F
      | [a, b] \<Rightarrow> 0xC2 \<le> byte a \<and> byte a \<le> 0xDF \<and> cont b
      | [a, b, c] \<Rightarrow>
          (byte a = 0xE0 \<and> 0xA0 \<le> byte b \<and> byte b \<le> 0xBF
           \<or> 0xE1 \<le> byte a \<and> byte a \<le> 0xEC \<and> cont b
           \<or> byte a = 0xED \<and> 0x80 \<le> byte b \<and> byte b \<le> 0x9F
           \<or> 0xEE \<le> byte a \<and> byte a \<le> 0xEF \<and> cont b)
          \<and> cont c
      | [a, b, c, d] \<Rightarrow>
          (byte a = 0xF0 \<and> 0x90 \<le> byte b \<and> byte b \<le> 0xBF
           \<or> 0xF1 \<le> byte a \<and> byte a \<le> 0xF3 \<and> cont b
           \<or> byte a = 0xF4 \<and> 0x80 \<le> byte b \<and> byte b \<le> 0x8F)
          \<and> cont c \<and> cont d
      | _ \<Rightarrow> False)"

text \<open>Valid text: a sequence of such encodings, read from the left.\<close>

fun valid_utf8 :: "string \<Rightarrow> bool" where
  "valid_utf8 [] = True"
| "valid_utf8 (a # s) =
     (if utf8_char [a] then valid_utf8 s
      else if utf8_char (a # take 1 s) then valid_utf8 (drop 1 s)
      else if utf8_char (a # take 2 s) then valid_utf8 (drop 2 s)
      else if utf8_char (a # take 3 s) then valid_utf8 (drop 3 s)
      else False)"

text \<open>\<open>utf8.ValidRune\<close>: the code points that can be encoded.\<close>

definition ValidRune :: "int \<Rightarrow> bool" where
  "ValidRune r = (0 \<le> r \<and> r < 0xD800 \<or> 0xDFFF < r \<and> r \<le> 0x10FFFF)"

text \<open>
  The positions between the runes of a string as Go reads it: position \<open>n\<close> is
  reached from the start by decoding one rune after the other, an invalid byte being a
  rune of width 1. No encoded code point straddles such a position.
\<close>

function rune_boundary :: "string \<Rightarrow> nat \<Rightarrow> bool" where
  "rune_boundary s n =
     (if n = 0 then True
      else
        let k = DecodeRuneInString_size s in
        if k = 0 \<or> n < k then False else rune_boundary (drop k s) (n - k))"
  by pat_completeness auto
termination
  by (relation "measure (\<lambda>(s, n). n)") auto

text \<open>
  The invariant of the buffer, for a class \<open>V\<close> of texts: the dot lies within the
  content, the content before the dot is in \<open>V\<close> and the content from the dot on is
  valid text. With valid text for \<open>V\<close> this is the invariant of the specification:
  the content is valid text and the dot is on the boundary between two encoded code
  points. With any text for \<open>V\<close> it still says that the dot is within the content
  and that the byte at the dot does not continue an encoding.
\<close>

definition buffer_inv :: "(string \<Rightarrow> bool) \<Rightarrow> CodeBuffer \<Rightarrow> bool" where
  "buffer_inv V c \<longleftrightarrow>
     0 \<le> Dot c \<and> Dot c \<le> int (length (Content c))
     \<and> V (take (nat (Dot c)) (Content c))
     \<and> valid_utf8 (drop (nat (Dot c)) (Content c))"

definition any_text :: "string \<Rightarrow> bool" where
  "any_text t = True"

definition buffer_ok :: "CodeBuffer \<Rightarrow> bool" where
  "buffer_ok c \<longleftrightarrow> buffer_inv valid_utf8 c"

definition dot_ok :: "CodeBuffer \<Rightarrow> bool" where
  "dot_ok c \<longleftrightarrow> buffer_inv any_text c"

text \<open>
  What the widget's operations need of a class of texts to keep the invariant: it holds
  the empty text and the encoding of every rune, and is closed under concatenation,
  under cutting a trailing text of the class off, and under cutting off what
  \<open>DecodeLastRuneInString\<close> measures.
\<close>

definition text_class :: "(string \<Rightarrow> bool) \<Rightarrow> bool" where
  "text_class V \<longleftrightarrow>
     V [] \<and> (\<forall>r. V (EncodeRune r)) \<and> (\<forall>a b. V a \<longrightarrow> V b \<longrightarrow> V (a @ b))
     \<and> (\<forall>p a. V (p @ a) \<longrightarrow> V a \<longrightarrow> V p)
     \<and> (\<forall>s. V s \<longrightarrow> V (take (length s - DecodeLastRuneInString_size s) s))"

text \<open>
  A configuration that hands texts of the class to the widget: the overlay handler keeps
  the invariant of the buffer, the abbreviations and their expansions are in the class,
  and the quote function, when it is used, maps the class into itself. A valid
  configuration is one for valid text.
\<close>

definition config_inv :: "(string \<Rightarrow> bool) \<Rightarrow> extern \<Rightarrow> Config \<Rightarrow> bool" where
  "config_inv V x cfg \<longleftrightarrow>
     (\<forall>event s. buffer_inv V (CodeBuffer s) \<longrightarrow>
        buffer_inv V (CodeBuffer (snd (OverlayHandler cfg event s))))
     \<and> (\<forall>p\<in>set (Abbreviations cfg). V (fst p) \<and> V (snd p))
     \<and> (QuotePaste cfg \<longrightarrow> (\<forall>t. V t \<longrightarrow> V (Quote x t)))"

definition valid_Config :: "extern \<Rightarrow> Config \<Rightarrow> bool" where
  "valid_Config x cfg \<longleftrightarrow> config_inv valid_utf8 x cfg"

text \<open>
  The insertion tracking: the inserted text, when there is some, ends the text before
  the dot of the buffer last seen. The widget's invariant adds the buffer's invariant and
  a paste buffer in the class, which is empty unless the widget is pasting.
\<close>

definition tracking_ok :: "widget \<Rightarrow> bool" where
  "tracking_ok w \<longleftrightarrow>
     (inserts w \<noteq> [] \<longrightarrow>
        suffix (inserts w) (take (nat (Dot (lastCodeBuffer w))) (Content (lastCodeBuffer w))))"

definition widget_inv :: "(string \<Rightarrow> bool) \<Rightarrow> widget \<Rightarrow> bool" where
  "widget_inv V w \<longleftrightarrow>
     buffer_inv V (CodeBuffer (State w)) \<and> V (pasteBuffer w) \<and> tracking_ok w
     \<and> (\<not> pasting w \<longrightarrow> pasteBuffer w = [])"

section \<open>Concrete widgets and configurations\<close>

text \<open>
  A base widget over a counter that counts how often its handler ran and never handles
  an event, an overlay that handles every event and one that handles none.
\<close>

definition count_base :: "(nat, int) Widget" where
  "count_base =
     \<lparr>Render = (\<lambda>width height s. (width * height, s)),
      Handle = (\<lambda>event s. (False, Suc s))\<rparr>"

definition handle_all :: "nat Handler" where
  "handle_all event s = (True, s)"

definition handle_none :: "nat Handler" where
  "handle_none event s = (False, s)"

text \<open>
  A quote function that wraps its argument in single quotes, range tables that hold no
  rune, and a configuration with the two abbreviations \<open>ex\<close> and \<open>x\<close>, in this
  order, that quotes pasted text and has the default overlay handler.
\<close>

definition quote_single :: "string \<Rightarrow> string" where
  "quote_single s = CHR 0x27 # s @ [CHR 0x27]"

definition example_extern :: extern where
  "example_extern = \<lparr>Quote = quote_single, GraphicRanges = (\<lambda>r. False)\<rparr>"

definition example_Config :: Config where
  "example_Config =
     \<lparr>OverlayHandler = DummyHandler,
      Abbreviations = [(''ex'', ''example''), (''x'', ''exchange'')],
      QuotePaste = True\<rparr>"

definition ls_widget :: widget where
  "ls_widget = NewWithState example_Config \<lparr>CodeBuffer = \<lparr>Content = ''ls'', Dot = 2\<rparr>\<rparr>"

definition pasting_widget :: widget where
  "pasting_widget = ls_widget\<lparr>pasting := True, pasteBuffer := ''h''\<rparr>"

definition paste_hi :: "Event list" where
  "paste_hi = [PasteSetting True, KeyEvent (K 0x68), KeyEvent (K 0x69), PasteSetting False]"

text \<open>The number of calls of \<open>resetInserts\<close> a widget has recorded.\<close>

definition resets :: "widget \<Rightarrow> nat" where
  "resets w = count_list (calls w) Call_resetInserts"

text \<open>
  The widget after \<open>e\<close> was typed into the empty buffer, and a configuration whose
  only abbreviation is the empty string.
\<close>

definition typed_e :: widget where
  "typed_e =
     (New example_Config)\<lparr>State := \<lparr>CodeBuffer = \<lparr>Content = ''e'', Dot = 1\<rparr>\<rparr>,
       inserts := ''e'', lastCodeBuffer := \<lparr>Content = ''e'', Dot = 1\<rparr>\<rparr>"

definition empty_abbr_Config :: Config where
  "empty_abbr_Config =
     \<lparr>OverlayHandler = DummyHandler, Abbreviations = [([], ''foo'')], QuotePaste = False\<rparr>"

text \<open>The buffer \<open>caf\<close>, \<open>U+00E9\<close> with the dot at its end, 5.\<close>

definition cafe_widget :: widget where
  "cafe_widget =
     NewWithState example_Config
       \<lparr>CodeBuffer = \<lparr>Content = [CHR ''c'', CHR ''a'', CHR ''f'', CHR 0xC3, CHR 0xA9], Dot = 5\<rparr>\<rparr>"

section \<open>Theorems\<close>

text \<open>
  C5. The composite made by \<open>AddOverlayHandler\<close> renders exactly what the base
  renders, for every width and height. On handle the overlay is asked first: when it
  reports handled, the composite reports handled, the state is the one the overlay left,
  and the result is the same whatever the base's handler is, so no path of the base runs;
  when the overlay reports not handled, the result is the base's on the state the
  overlay left.
\<close>

theorem overlay_first_refusal:
  "Render (AddOverlayHandler b h) width height s = Render b width height s
   \<and> (fst (h event s) \<longrightarrow>
        Handle (AddOverlayHandler b h) event s = (True, snd (h event s))
        \<and> (\<forall>b'. Handle (AddOverlayHandler b' h) event s
                 = Handle (AddOverlayHandler b h) event s))
   \<and> (\<not> fst (h event s) \<longrightarrow>
        Handle (AddOverlayHandler b h) event s = Handle b event (snd (h event s)))"
  by (cases "h event s")
     (simp add: AddOverlayHandler_def Let_def overlay_Render_def overlay_Handle_def)

theorem overlay_first_refusal_witness:
  "fst (handle_all OtherEvent 0)
   \<and> Handle (AddOverlayHandler count_base handle_all) OtherEvent 0 = (True, 0)
   \<and> \<not> fst (handle_none OtherEvent 0)
   \<and> Handle (AddOverlayHandler count_base handle_none) OtherEvent 0 = (False, 1)
   \<and> Render (AddOverlayHandler count_base handle_all) 3 4 0 = (12, 0)"
  using overlay_first_refusal [of count_base handle_all 3 4 0 OtherEvent]
        overlay_first_refusal [of count_base handle_none 3 4 0 OtherEvent]
  by (simp add: count_base_def handle_all_def handle_none_def AddOverlayHandler_def
        overlay_Handle_def overlay_Render_def Let_def)

text \<open>
  C6. In the normal state (not pasting) an Enter key is handled as follows, whatever the
  buffer is: the submit callback is called once, with the content of the buffer; the
  state, and so the content and the dot, is unchanged; the only other change to the
  widget is the reset of the insertion tracking. \<open>Handle\<close> does the same when the
  overlay handler declines the event and leaves the state alone.
\<close>

theorem enter_submits:
  assumes "\<not> pasting w"
  shows "handleKeyEvent x w (K Enter) =
           Some (w\<lparr>inserts := [], lastCodeBuffer := \<lparr>Content = [], Dot = 0\<rparr>,
                   calls := calls w @ [Call_resetInserts,
                                       Call_OnSubmit (Content (CodeBuffer (State w)))]\<rparr>, True)
         \<and> (OverlayHandler (Config w) (KeyEvent (K Enter)) (State w) = (False, State w) \<longrightarrow>
              widget_Handle x w (KeyEvent (K Enter)) = handleKeyEvent x w (K Enter))"
  using assms by (simp add: handleKeyEvent_def widget_Handle_def Submit_def resetInserts_def)

theorem enter_submits_witness:
  "\<not> pasting ls_widget
   \<and> widget_Handle example_extern ls_widget (KeyEvent (K Enter)) =
       Some (ls_widget\<lparr>calls := [Call_resetInserts, Call_OnSubmit ''ls'']\<rparr>, True)"
  using enter_submits [of ls_widget example_extern]
  by (simp add: ls_widget_def NewWithState_def example_Config_def DummyHandler_def)

text \<open>
  C8. While pasting, a function key (a key with a modifier or a negative rune) is
  dropped: the widget, and so the paste buffer, the code buffer and the pasting flag, is
  unchanged, there is no panic, and the event is reported handled.
\<close>

theorem pasting_drops_function_key:
  assumes "pasting w" and "isFuncKey key"
  shows "handleKeyEvent x w key = Some (w, True)
         \<and> (OverlayHandler (Config w) (KeyEvent key) (State w) = (False, State w) \<longrightarrow>
              widget_Handle x w (KeyEvent key) = Some (w, True))"
  using assms by (simp add: handleKeyEvent_def widget_Handle_def)

theorem pasting_drops_function_key_witness:
  "pasting pasting_widget \<and> isFuncKey \<lparr>Rune = -1, Mod = 0\<rparr>
   \<and> widget_Handle example_extern pasting_widget (KeyEvent \<lparr>Rune = -1, Mod = 0\<rparr>) =
       Some (pasting_widget, True)"
  using pasting_drops_function_key [of pasting_widget "\<lparr>Rune = -1, Mod = 0\<rparr>" example_extern]
  by (simp add: pasting_widget_def ls_widget_def NewWithState_def example_Config_def
        DummyHandler_def isFuncKey_def)

text \<open>
  C10. While pasting, no key event calls the submit callback: any key is handled with
  the recorded calls and the state unchanged, and the widget keeps pasting. The unmodified
  Enter key is not a function key, and its rune, the line feed, is appended to the paste
  buffer.
\<close>

theorem pasting_never_submits:
  assumes "pasting w"
  shows "(\<exists>w'. handleKeyEvent x w key = Some (w', True) \<and> calls w' = calls w
               \<and> State w' = State w \<and> pasting w')
         \<and> \<not> isFuncKey (K Enter)
         \<and> handleKeyEvent x w (K Enter) =
             Some (w\<lparr>pasteBuffer := pasteBuffer w @ [CHR 0x0A]\<rparr>, True)"
  using assms
  by (simp add: handleKeyEvent_def isFuncKey_def K_def Enter_def WriteRune_def
        char_of_def bit_0)

theorem pasting_never_submits_witness:
  "pasting pasting_widget
   \<and> handleKeyEvent example_extern pasting_widget (K Enter) =
       Some (pasting_widget\<lparr>pasteBuffer := [CHR ''h'', CHR 0x0A]\<rparr>, True)"
  using pasting_never_submits [of pasting_widget example_extern "K Enter"]
  by (simp add: pasting_widget_def ls_widget_def)

text \<open>
  C9. In the normal state, with the paste buffer empty and the dot within the content,
  a paste end that no paste start precedes is handled as a finished paste: the empty
  text, or what the quote function makes of it when pasted text is quoted, is inserted
  at the dot, the insertion tracking is reset and the event is reported handled. The
  pasting flag is not looked at: the result is the same with the flag set.
\<close>

theorem paste_end_without_start:
  assumes "\<not> pasting w" and "pasteBuffer w = []"
    and "0 \<le> Dot (CodeBuffer (State w))"
    and "Dot (CodeBuffer (State w)) \<le> int (length (Content (CodeBuffer (State w))))"
  shows "handlePasteSetting x w False =
           Some (w\<lparr>State := (State w)\<lparr>CodeBuffer :=
                     \<lparr>Content = take (nat (Dot (CodeBuffer (State w)))) (Content (CodeBuffer (State w)))
                                @ (if QuotePaste (Config w) then Quote x [] else [])
                                @ drop (nat (Dot (CodeBuffer (State w)))) (Content (CodeBuffer (State w))),
                      Dot = Dot (CodeBuffer (State w))
                            + int (length (if QuotePaste (Config w) then Quote x [] else []))\<rparr>\<rparr>,
                   inserts := [], lastCodeBuffer := \<lparr>Content = [], Dot = 0\<rparr>,
                   pasting := False, pasteBuffer := [],
                   calls := calls w @ [Call_resetInserts]\<rparr>, True)
         \<and> handlePasteSetting x (w\<lparr>pasting := True\<rparr>) False = handlePasteSetting x w False
         \<and> (OverlayHandler (Config w) (PasteSetting False) (State w) = (False, State w) \<longrightarrow>
              widget_Handle x w (PasteSetting False) = handlePasteSetting x w False)"
  using assms
  by (simp add: handlePasteSetting_def widget_Handle_def resetInserts_def
        MutateCodeAreaState_def InsertAtDot_def slice_to_def slice_from_def Let_def)

theorem paste_end_without_start_witness:
  "\<not> pasting ls_widget \<and> pasteBuffer ls_widget = []
   \<and> widget_Handle example_extern ls_widget (PasteSetting False) =
       Some (ls_widget\<lparr>State := \<lparr>CodeBuffer =
                \<lparr>Content = [CHR ''l'', CHR ''s'', CHR 0x27, CHR 0x27], Dot = 4\<rparr>\<rparr>,
               calls := [Call_resetInserts]\<rparr>, True)"
  using paste_end_without_start [of ls_widget example_extern]
  by (simp add: ls_widget_def NewWithState_def example_Config_def DummyHandler_def
        example_extern_def quote_single_def)

subsection \<open>Bracketed paste\<close>

lemma WriteRune_EncodeRune: "WriteRune buf r = buf @ EncodeRune r" if "0 \<le> r"
proof (cases "r < 0x80")
  case True
  with that have "r mod 256 = r" and "nat r \<le> 0x7F" by simp_all
  with that True show ?thesis by (simp add: WriteRune_def EncodeRune_def Let_def)
next
  case False
  then show ?thesis by (simp add: WriteRune_def)
qed

lemma Handle_all_pasting_keys:
  assumes "OverlayHandler (Config w) = DummyHandler" and "pasting w"
    and "\<forall>k\<in>set ks. \<not> isFuncKey k"
  shows "Handle_all x w (map KeyEvent ks @ rest) =
           Handle_all x (w\<lparr>pasteBuffer := pasteBuffer w
                              @ concat (map (\<lambda>k. EncodeRune (Rune k)) ks)\<rparr>) rest"
  using assms
proof (induction ks arbitrary: w)
  case Nil
  then show ?case by simp
next
  case (Cons k ks)
  have k: "\<not> isFuncKey k" using Cons.prems by simp
  then have r: "0 \<le> Rune k" by (simp add: isFuncKey_def)
  let ?w = "w\<lparr>pasteBuffer := pasteBuffer w @ EncodeRune (Rune k)\<rparr>"
  have step: "widget_Handle x w (KeyEvent k) = Some (?w, True)"
    using Cons.prems(1,2) k r
    by (simp add: widget_Handle_def DummyHandler_def handleKeyEvent_def WriteRune_EncodeRune)
  have "Handle_all x ?w (map KeyEvent ks @ rest) =
          Handle_all x (?w\<lparr>pasteBuffer := pasteBuffer ?w
                               @ concat (map (\<lambda>k. EncodeRune (Rune k)) ks)\<rparr>) rest"
    using Cons.prems by (intro Cons.IH) simp_all
  with step show ?case by simp
qed

text \<open>
  C2, as the code has it. With the default overlay handler, the paste buffer empty and
  the dot within the content: after a paste start, any keys that are not function keys
  and a paste end, the text made of the keys' runes, in order, passed through the quote
  function when pasted text is quoted, has been inserted at the dot in one piece; the
  paste buffer is empty again and the widget is no longer pasting. \<open>resetInserts\<close> has
  been called twice, once at the paste start and once at the paste end, and not at all
  for the keys.
\<close>

theorem paste_sequence:
  assumes "OverlayHandler (Config w) = DummyHandler"
    and "\<forall>k\<in>set ks. \<not> isFuncKey k"
    and "pasteBuffer w = []"
    and "0 \<le> Dot (CodeBuffer (State w))"
    and "Dot (CodeBuffer (State w)) \<le> int (length (Content (CodeBuffer (State w))))"
    and "text = (if QuotePaste (Config w)
                 then Quote x (concat (map (\<lambda>k. EncodeRune (Rune k)) ks))
                 else concat (map (\<lambda>k. EncodeRune (Rune k)) ks))"
  shows "Handle_all x w (PasteSetting True # map KeyEvent ks @ [PasteSetting False]) =
           Some (w\<lparr>State := (State w)\<lparr>CodeBuffer :=
                     \<lparr>Content = take (nat (Dot (CodeBuffer (State w)))) (Content (CodeBuffer (State w)))
                                @ text
                                @ drop (nat (Dot (CodeBuffer (State w)))) (Content (CodeBuffer (State w))),
                      Dot = Dot (CodeBuffer (State w)) + int (length text)\<rparr>\<rparr>,
                   inserts := [], lastCodeBuffer := \<lparr>Content = [], Dot = 0\<rparr>,
                   pasting := False, pasteBuffer := [],
                   calls := calls w @ [Call_resetInserts, Call_resetInserts]\<rparr>)"
proof -
  let ?w1 = "(resetInserts w)\<lparr>pasting := True\<rparr>"
  have s1: "widget_Handle x w (PasteSetting True) = Some (?w1, True)"
    using assms(1) by (simp add: widget_Handle_def DummyHandler_def handlePasteSetting_def)
  have c1: "OverlayHandler (Config ?w1) = DummyHandler" "pasting ?w1"
    using assms(1) by (simp_all add: resetInserts_def)
  let ?w2 = "?w1\<lparr>pasteBuffer := pasteBuffer ?w1 @ concat (map (\<lambda>k. EncodeRune (Rune k)) ks)\<rparr>"
  have s2: "Handle_all x ?w1 (map KeyEvent ks @ [PasteSetting False]) =
              Handle_all x ?w2 [PasteSetting False]"
    using c1 assms(2) by (rule Handle_all_pasting_keys)
  have s3: "widget_Handle x ?w2 (PasteSetting False) =
              Some (w\<lparr>State := (State w)\<lparr>CodeBuffer :=
                     \<lparr>Content = take (nat (Dot (CodeBuffer (State w)))) (Content (CodeBuffer (State w)))
                                @ text
                                @ drop (nat (Dot (CodeBuffer (State w)))) (Content (CodeBuffer (State w))),
                      Dot = Dot (CodeBuffer (State w)) + int (length text)\<rparr>\<rparr>,
                   inserts := [], lastCodeBuffer := \<lparr>Content = [], Dot = 0\<rparr>,
                   pasting := False, pasteBuffer := [],
                   calls := calls w @ [Call_resetInserts, Call_resetInserts]\<rparr>, True)"
    using assms
    by (simp add: widget_Handle_def DummyHandler_def handlePasteSetting_def resetInserts_def
          MutateCodeAreaState_def InsertAtDot_def slice_to_def slice_from_def Let_def)
  show ?thesis using s1 s2 s3 by simp
qed

theorem paste_sequence_witness:
  "Handle_all example_extern (New example_Config) paste_hi =
     Some ((New example_Config)\<lparr>State := \<lparr>CodeBuffer =
              \<lparr>Content = [CHR 0x27, CHR ''h'', CHR ''i'', CHR 0x27], Dot = 4\<rparr>\<rparr>,
            calls := [Call_resetInserts, Call_resetInserts]\<rparr>)"
  using paste_sequence [of "New example_Config" "[K 0x68, K 0x69]" _ example_extern]
  by (simp add: paste_hi_def New_def NewWithState_def example_Config_def example_extern_def
        isFuncKey_def K_def EncodeRune_def quote_single_def char_of_def bit_0)

text \<open>
  C2 as stated fails on its own example: the sequence paste start, \<open>h\<close>, \<open>i\<close>, paste
  end calls \<open>resetInserts\<close> twice, not once.
\<close>

theorem paste_sequence_resets_twice:
  "map_option resets (Handle_all example_extern (New example_Config) paste_hi) = Some 2"
  by (simp add: paste_hi_def New_def NewWithState_def example_Config_def example_extern_def
        widget_Handle_def DummyHandler_def handlePasteSetting_def handleKeyEvent_def
        resetInserts_def MutateCodeAreaState_def InsertAtDot_def slice_to_def slice_from_def
        isFuncKey_def K_def WriteRune_def resets_def Let_def)

subsection \<open>Asynchronous sources\<close>




subsection \<open>Abbreviations\<close>

lemma HasSuffix_iff: "HasSuffix s a \<longleftrightarrow> suffix a s"
proof
  assume h: "HasSuffix s a"
  then have "s = take (length s - length a) s @ a"
    by (metis HasSuffix_def append_take_drop_id)
  then show "suffix a s" by (metis suffixI)
next
  assume "suffix a s"
  then obtain zs where "s = zs @ a" by (auto simp: suffix_def)
  then show "HasSuffix s a" by (simp add: HasSuffix_def)
qed

lemma visit_empty: "fst p = [] \<Longrightarrow> visit ins ch p = ch"
  by (simp add: visit_def)

lemma foldl_visit_filter:
  "foldl (visit ins) ch (filter (\<lambda>p. fst p \<noteq> []) abbrs) = foldl (visit ins) ch abbrs"
  by (induction abbrs arbitrary: ch) (simp_all add: visit_empty)

lemma exists_longest:
  assumes "\<exists>q\<in>set ps. M q \<and> n < f q"
  shows "\<exists>q\<in>set ps. M q \<and> n < f q \<and> (\<forall>q'\<in>set ps. M q' \<longrightarrow> f q' \<le> (f q :: nat))"
  using assms
proof (induction ps)
  case Nil
  then show ?case by simp
next
  case (Cons p ps)
  show ?case
  proof (cases "\<exists>q\<in>set ps. M q \<and> n < f q")
    case True
    then obtain q where q: "q \<in> set ps" "M q" "n < f q" "\<forall>q'\<in>set ps. M q' \<longrightarrow> f q' \<le> f q"
      using Cons.IH by blast
    show ?thesis
    proof (cases "M p \<and> f q < f p")
      case True
      then have "\<forall>q'\<in>set (p # ps). M q' \<longrightarrow> f q' \<le> f p" using q by fastforce
      moreover have "n < f p" using True q by simp
      ultimately show ?thesis using True by auto
    next
      case False
      then have "\<forall>q'\<in>set (p # ps). M q' \<longrightarrow> f q' \<le> f q" using q by fastforce
      then show ?thesis using q by auto
    qed
  next
    case False
    with Cons.prems have p: "M p" "n < f p" by auto
    have "\<forall>q'\<in>set (p # ps). M q' \<longrightarrow> f q' \<le> f p" using False p by fastforce
    then show ?thesis using p by auto
  qed
qed

lemma foldl_visit_find:
  "foldl (visit ins) ch abbrs = (case find (pick ins ch abbrs) abbrs of None \<Rightarrow> ch | Some p \<Rightarrow> p)"
proof (induction abbrs arbitrary: ch)
  case Nil
  then show ?case by simp
next
  case (Cons p ps)
  let ?M = "\<lambda>q. suffix (fst q) ins"
  show ?case
  proof (cases "?M p \<and> length (fst ch) < length (fst p)")
    case True
    then have v: "visit ins ch p = p" by (simp add: visit_def HasSuffix_iff)
    show ?thesis
    proof (cases "\<exists>q\<in>set ps. ?M q \<and> length (fst p) < length (fst q)")
      case False
      then have "pick ins ch (p # ps) p" using True by (auto simp: pick_def not_less)
      moreover have "find (pick ins p ps) ps = None"
        using False by (auto simp: find_None_iff pick_def)
      ultimately show ?thesis using Cons.IH [of p] v by simp
    next
      case ex: True
      then have np: "\<not> pick ins ch (p # ps) p" by (auto simp: pick_def)
      have eq: "find (pick ins ch (p # ps)) ps = find (pick ins p ps) ps"
      proof (rule find_cong [OF refl])
        fix q assume "q \<in> set ps"
        show "pick ins ch (p # ps) q = pick ins p ps q"
          using True ex by (fastforce simp: pick_def)
      qed
      have "\<exists>q\<in>set ps. suffix (fst q) ins \<and> length (fst p) < length (fst q)
              \<and> (\<forall>q'\<in>set ps. suffix (fst q') ins \<longrightarrow> length (fst q') \<le> length (fst q))"
        using exists_longest [of ps "\<lambda>q. suffix (fst q) ins" "length (fst p)" "\<lambda>q. length (fst q)"] ex
        by simp
      then obtain q where "q \<in> set ps" "pick ins p ps q"
        unfolding pick_def by blast
      then have "find (pick ins p ps) ps \<noteq> None" unfolding find_None_iff by blast
      then show ?thesis using Cons.IH [of p] v np eq by (auto split: option.splits)
    qed
  next
    case False
    then have v: "visit ins ch p = ch" by (auto simp: visit_def HasSuffix_iff)
    have np: "\<not> pick ins ch (p # ps) p" using False by (auto simp: pick_def)
    have eq: "find (pick ins ch (p # ps)) ps = find (pick ins ch ps) ps"
    proof (rule find_cong [OF refl])
      fix q assume "q \<in> set ps"
      show "pick ins ch (p # ps) q = pick ins ch ps q"
        using False by (fastforce simp: pick_def)
    qed
    show ?thesis using Cons.IH [of ch] v np eq by simp
  qed
qed

lemma foldl_visit_longest_match:
  "foldl (visit ins) ([], []) abbrs =
     (case longest_match ins (filter (\<lambda>p. fst p \<noteq> []) abbrs) of
        None \<Rightarrow> ([], []) | Some p \<Rightarrow> p)"
proof -
  let ?ne = "filter (\<lambda>p. fst p \<noteq> []) abbrs"
  have "find (pick ins ([], []) ?ne) ?ne = longest_match ins ?ne"
    unfolding longest_match_def
    by (rule find_cong [OF refl]) (auto simp: pick_def)
  then show ?thesis
    using foldl_visit_find [of ins "([], [])" ?ne] foldl_visit_filter [of ins "([], [])" abbrs]
    by simp
qed

lemma longest_match_SomeD:
  assumes "longest_match ins abbrs = Some p"
  shows "p \<in> set abbrs \<and> suffix (fst p) ins"
  using assms by (auto simp: longest_match_def find_Some_iff)

lemma graphic_not_named:
  assumes "\<not> isFuncKey key" and "IsGraphic x (Rune key)"
  shows "key \<noteq> K Enter" and "key \<noteq> K Backspace"
  using assms by (auto simp: K_def Enter_def Backspace_def IsGraphic_def)

lemma InsertAtDot_Some:
  assumes "0 \<le> Dot c" and "Dot c \<le> int (length (Content c))"
  shows "InsertAtDot c t =
           Some \<lparr>Content = take (nat (Dot c)) (Content c) @ t @ drop (nat (Dot c)) (Content c),
                 Dot = Dot c + int (length t)\<rparr>"
  using assms by (simp add: InsertAtDot_def slice_to_def slice_from_def)


lemma handleKeyEvent_graphic_choice:
  assumes "\<not> pasting w" and "\<not> isFuncKey key" and "IsGraphic x (Rune key)"
    and "0 \<le> Dot (CodeBuffer (State w))"
    and "Dot (CodeBuffer (State w)) \<le> int (length (Content (CodeBuffer (State w))))"
    and "lastCodeBuffer w = CodeBuffer (State w) \<longrightarrow>
           suffix (inserts w) (take (nat (Dot (CodeBuffer (State w)))) (Content (CodeBuffer (State w))))"
    and "ins = (if lastCodeBuffer w \<noteq> CodeBuffer (State w) then [] else inserts w)
               @ EncodeRune (Rune key)"
    and "X = take (nat (Dot (CodeBuffer (State w)))) (Content (CodeBuffer (State w)))
             @ EncodeRune (Rune key)"
    and "Y = drop (nat (Dot (CodeBuffer (State w)))) (Content (CodeBuffer (State w)))"
  shows "\<exists>w'. handleKeyEvent x w key = Some (w', True)
           \<and> Config w' = Config w \<and> pasteBuffer w' = pasteBuffer w
           \<and> pasting w' = pasting w \<and> suffix ins X
           \<and> (case longest_match ins (filter (\<lambda>p. fst p \<noteq> []) (Abbreviations (Config w))) of
              None \<Rightarrow>
                CodeBuffer (State w') = \<lparr>Content = X @ Y, Dot = int (length X)\<rparr>
                \<and> inserts w' = ins \<and> lastCodeBuffer w' = CodeBuffer (State w')
            | Some (abbr, full) \<Rightarrow>
                suffix abbr X
                \<and> CodeBuffer (State w') =
                    \<lparr>Content = take (length X - length abbr) X @ full @ Y,
                     Dot = int (length X - length abbr + length full)\<rparr>
                \<and> inserts w' = [] \<and> lastCodeBuffer w' = \<lparr>Content = [], Dot = 0\<rparr>)"
proof -
  let ?c = "CodeBuffer (State w)"
  let ?abbrs = "Abbreviations (Config w)"
  define w1 where "w1 = (if lastCodeBuffer w \<noteq> ?c then resetInserts w else w)"
  have st: "State w1 = State w" "Config w1 = Config w" "pasteBuffer w1 = pasteBuffer w"
    "pasting w1 = pasting w"
    and i1: "inserts w1 @ EncodeRune (Rune key) = ins"
    using assms(7) by (simp_all add: w1_def resetInserts_def)
  have lenX: "int (length X) = Dot ?c + int (length (EncodeRune (Rune key)))"
    using assms(4,5,8) by simp
  have ins: "InsertAtDot (CodeBuffer (State w1)) (EncodeRune (Rune key)) =
               Some \<lparr>Content = X @ Y, Dot = int (length X)\<rparr>"
    using assms(4,5,8,9) st lenX by (simp add: InsertAtDot_Some)
  have sufX: "suffix ins X"
    using assms(6,7,8) by (auto simp: suffix_def)
  have fold: "foldl (visit ins) ([], []) ?abbrs =
                (case longest_match ins (filter (\<lambda>p. fst p \<noteq> []) ?abbrs) of
                   None \<Rightarrow> ([], []) | Some p \<Rightarrow> p)"
    by (rule foldl_visit_longest_match)
  show ?thesis
  proof (cases "longest_match ins (filter (\<lambda>p. fst p \<noteq> []) ?abbrs)")
    case None
    then have f: "foldl (visit ins) ([], []) ?abbrs = ([], [])" using fold by simp
    show ?thesis
      using assms(1,2,3) graphic_not_named [OF assms(2,3)] ins st i1 f None sufX
      unfolding handleKeyEvent_def w1_def [symmetric]
      by (simp add: Let_def)
  next
    case (Some p)
    obtain a f where p: "p = (a, f)" by (cases p)
    have m: "(a, f) \<in> set (filter (\<lambda>p. fst p \<noteq> []) ?abbrs)" "suffix a ins"
      using longest_match_SomeD [OF Some] p by simp_all
    then have ne: "a \<noteq> []" by simp
    have sa: "suffix a X" using m(2) sufX by (rule suffix_order.trans)
    then have le: "length a \<le> length X" by (rule suffix_length_le)
    have f: "foldl (visit ins) ([], []) ?abbrs = (a, f)" using fold Some p by simp
    have pre: "slice_to (X @ Y) (int (length X) - int (length a)) =
                 Some (take (length X - length a) X)"
      using le by (simp add: slice_to_def nat_diff_distrib' flip: of_nat_diff)
    have post: "slice_from (X @ Y) (int (length X)) = Some Y"
      by (simp add: slice_from_def)
    show ?thesis
      using assms(1,2,3) graphic_not_named [OF assms(2,3)] ins st i1 f Some p ne sa le pre post sufX
      unfolding handleKeyEvent_def w1_def [symmetric]
      by (simp add: Let_def resetInserts_def)
  qed
qed

text \<open>
  C1, as the code has it. In the normal state, with the dot within the content and the
  inserted text a trailing substring of the text before the dot whenever the buffer is
  the one last seen: a graphic key that is not a function key is handled, its rune is
  inserted at the dot and appended to the inserted text (which starts afresh when the
  buffer is not the one last seen). Then, among the pairs with a non-empty abbreviation
  that is a trailing substring of the inserted text, the first with the longest
  abbreviation is chosen; its abbreviation ends the text before the dot and is replaced
  there by the expansion, the dot is put after the expansion and the insertion tracking
  is reset. When no pair is chosen the buffer stays as the insertion left it, and the
  tracking remembers it.
\<close>

theorem graphic_key_expands_longest:
  assumes "\<not> pasting w" and "\<not> isFuncKey key" and "IsGraphic x (Rune key)"
    and "0 \<le> Dot (CodeBuffer (State w))"
    and "Dot (CodeBuffer (State w)) \<le> int (length (Content (CodeBuffer (State w))))"
    and "lastCodeBuffer w = CodeBuffer (State w) \<longrightarrow>
           suffix (inserts w) (take (nat (Dot (CodeBuffer (State w)))) (Content (CodeBuffer (State w))))"
    and "ins = (if lastCodeBuffer w \<noteq> CodeBuffer (State w) then [] else inserts w)
               @ EncodeRune (Rune key)"
    and "X = take (nat (Dot (CodeBuffer (State w)))) (Content (CodeBuffer (State w)))
             @ EncodeRune (Rune key)"
    and "Y = drop (nat (Dot (CodeBuffer (State w)))) (Content (CodeBuffer (State w)))"
  shows "\<exists>w'. handleKeyEvent x w key = Some (w', True) \<and>
           (case longest_match ins (filter (\<lambda>p. fst p \<noteq> []) (Abbreviations (Config w))) of
              None \<Rightarrow>
                CodeBuffer (State w') = \<lparr>Content = X @ Y, Dot = int (length X)\<rparr>
                \<and> inserts w' = ins \<and> lastCodeBuffer w' = CodeBuffer (State w')
            | Some (abbr, full) \<Rightarrow>
                suffix abbr X
                \<and> CodeBuffer (State w') =
                    \<lparr>Content = take (length X - length abbr) X @ full @ Y,
                     Dot = int (length X - length abbr + length full)\<rparr>
                \<and> inserts w' = [] \<and> lastCodeBuffer w' = \<lparr>Content = [], Dot = 0\<rparr>)"
proof -
  obtain w' where "handleKeyEvent x w key = Some (w', True)"
    and "case longest_match ins (filter (\<lambda>p. fst p \<noteq> []) (Abbreviations (Config w))) of
              None \<Rightarrow>
                CodeBuffer (State w') = \<lparr>Content = X @ Y, Dot = int (length X)\<rparr>
                \<and> inserts w' = ins \<and> lastCodeBuffer w' = CodeBuffer (State w')
            | Some (abbr, full) \<Rightarrow>
                suffix abbr X
                \<and> CodeBuffer (State w') =
                    \<lparr>Content = take (length X - length abbr) X @ full @ Y,
                     Dot = int (length X - length abbr + length full)\<rparr>
                \<and> inserts w' = [] \<and> lastCodeBuffer w' = \<lparr>Content = [], Dot = 0\<rparr>"
    using handleKeyEvent_graphic_choice [OF assms] by blast
  then show ?thesis by blast
qed

theorem graphic_key_expands_longest_witness:
  "Handle_all example_extern (New example_Config) [KeyEvent (K 0x65), KeyEvent (K 0x78)] =
     Some ((New example_Config)\<lparr>State := \<lparr>CodeBuffer = \<lparr>Content = ''example'', Dot = 7\<rparr>\<rparr>,
            calls := [Call_resetInserts]\<rparr>)"
proof -
  have e: "EncodeRune 0x65 = ''e''" and x: "EncodeRune 0x78 = ''x''"
    by (simp_all add: EncodeRune_def char_of_def bit_0)
  have first_key: "widget_Handle example_extern (New example_Config) (KeyEvent (K 0x65)) =
                     Some (typed_e, True)"
    by (simp add: typed_e_def New_def NewWithState_def example_Config_def widget_Handle_def
          DummyHandler_def handleKeyEvent_def K_def Enter_def Backspace_def isFuncKey_def
          IsGraphic_def e InsertAtDot_def slice_to_def slice_from_def visit_def HasSuffix_def
          Let_def)
  have h1: "\<not> pasting typed_e" and h2: "\<not> isFuncKey (K 0x78)"
    and h3: "IsGraphic example_extern (Rune (K 0x78))"
    and h4: "0 \<le> Dot (CodeBuffer (State typed_e))"
    and h5: "Dot (CodeBuffer (State typed_e)) \<le> int (length (Content (CodeBuffer (State typed_e))))"
    and h6: "lastCodeBuffer typed_e = CodeBuffer (State typed_e) \<longrightarrow>
               suffix (inserts typed_e)
                 (take (nat (Dot (CodeBuffer (State typed_e)))) (Content (CodeBuffer (State typed_e))))"
    by (simp_all add: typed_e_def New_def NewWithState_def K_def isFuncKey_def IsGraphic_def)
  have lm: "longest_match ''ex'' (filter (\<lambda>p. fst p \<noteq> []) (Abbreviations (Config typed_e))) =
              Some (''ex'', ''example'')"
    by (simp add: longest_match_def typed_e_def New_def NewWithState_def example_Config_def
          HasSuffix_def flip: HasSuffix_iff)
  obtain w' where w': "handleKeyEvent example_extern typed_e (K 0x78) = Some (w', True)"
    and c: "CodeBuffer (State w') = \<lparr>Content = ''example'', Dot = 7\<rparr>"
    using graphic_key_expands_longest [OF h1 h2 h3 h4 h5 h6 refl refl refl] lm
    by (auto simp: typed_e_def New_def NewWithState_def K_def x)
  have second_key: "widget_Handle example_extern typed_e (KeyEvent (K 0x78)) =
      Some ((New example_Config)\<lparr>State := \<lparr>CodeBuffer = CodeBuffer (State w')\<rparr>,
             calls := [Call_resetInserts]\<rparr>, True)"
    unfolding c
    by (simp add: typed_e_def New_def NewWithState_def example_Config_def widget_Handle_def
          DummyHandler_def handleKeyEvent_def K_def Enter_def Backspace_def isFuncKey_def
          IsGraphic_def x InsertAtDot_def slice_to_def slice_from_def visit_def HasSuffix_def
          resetInserts_def Let_def)
  show ?thesis using first_key second_key c by simp
qed

text \<open>
  C1 as stated fails for an empty abbreviation. The empty string is a trailing substring
  of the inserted text \<open>a\<close>, so the pair of the specification's choice is the only
  pair; the widget chooses none: after \<open>a\<close> is typed the content is \<open>a\<close>, not
  \<open>afoo\<close>, and the insertion tracking is not reset.
\<close>

theorem empty_abbreviation_not_expanded:
  "longest_match ''a'' (Abbreviations empty_abbr_Config) = Some ([], ''foo'')
   \<and> Handle_all example_extern (New empty_abbr_Config) [KeyEvent (K 0x61)] =
       Some ((New empty_abbr_Config)\<lparr>State := \<lparr>CodeBuffer = \<lparr>Content = ''a'', Dot = 1\<rparr>\<rparr>,
              inserts := ''a'', lastCodeBuffer := \<lparr>Content = ''a'', Dot = 1\<rparr>\<rparr>)"
  by (simp add: longest_match_def empty_abbr_Config_def New_def NewWithState_def
        widget_Handle_def DummyHandler_def handleKeyEvent_def K_def Enter_def Backspace_def
        isFuncKey_def IsGraphic_def EncodeRune_def char_of_def bit_0 InsertAtDot_def
        slice_to_def slice_from_def visit_def HasSuffix_def Let_def)

subsection \<open>UTF-8\<close>

lemma utf8_charE:
  assumes "utf8_char e"
  obtains (one) a where "e = [a]" "byte a \<le> 0x7F"
  | (two) a b where "e = [a, b]" "0xC2 \<le> byte a" "byte a \<le> 0xDF" "cont b"
  | (three) a b c where "e = [a, b, c]" "0xE0 \<le> byte a" "byte a \<le> 0xEF" "cont b" "cont c"
      "byte a = 0xE0 \<longrightarrow> 0xA0 \<le> byte b" "byte a = 0xED \<longrightarrow> byte b \<le> 0x9F"
  | (four) a b c d where "e = [a, b, c, d]" "0xF0 \<le> byte a" "byte a \<le> 0xF4"
      "cont b" "cont c" "cont d"
      "byte a = 0xF0 \<longrightarrow> 0x90 \<le> byte b" "byte a = 0xF4 \<longrightarrow> byte b \<le> 0x8F"
proof (cases e)
  case Nil
  with assms show ?thesis by (simp add: utf8_char_def)
next
  case e1: (Cons a t1)
  show ?thesis
  proof (cases t1)
    case Nil
    with assms e1 one show ?thesis by (simp add: utf8_char_def)
  next
    case e2: (Cons b t2)
    show ?thesis
    proof (cases t2)
      case Nil
      with assms e1 e2 two show ?thesis by (simp add: utf8_char_def)
    next
      case e3: (Cons c t3)
      show ?thesis
      proof (cases t3)
        case Nil
        with assms e1 e2 e3 have "utf8_char [a, b, c]" by simp
        then have "0xE0 \<le> byte a" "byte a \<le> 0xEF" "cont b" "cont c"
          "byte a = 0xE0 \<longrightarrow> 0xA0 \<le> byte b" "byte a = 0xED \<longrightarrow> byte b \<le> 0x9F"
          unfolding utf8_char_def cont_def by auto
        with e1 e2 e3 Nil three show ?thesis by simp
      next
        case e4: (Cons d t4)
        show ?thesis
        proof (cases t4)
          case Nil
          with assms e1 e2 e3 e4 have "utf8_char [a, b, c, d]" by simp
          then have "0xF0 \<le> byte a" "byte a \<le> 0xF4" "cont b" "cont c" "cont d"
            "byte a = 0xF0 \<longrightarrow> 0x90 \<le> byte b" "byte a = 0xF4 \<longrightarrow> byte b \<le> 0x8F"
            unfolding utf8_char_def cont_def by auto
          with e1 e2 e3 e4 Nil four show ?thesis by simp
        next
          case (Cons z zs)
          with assms e1 e2 e3 e4 show ?thesis by (simp add: utf8_char_def)
        qed
      qed
    qed
  qed
qed

lemma first_two: "0xC2 \<le> n \<Longrightarrow> n \<le> 0xDF \<Longrightarrow> first n = 0x02"
  by (simp add: first_def)

lemma first_three:
  "0xE0 \<le> n \<Longrightarrow> n \<le> 0xEF \<Longrightarrow>
     first n = (if n = 0xE0 then 0x13 else if n = 0xED then 0x23 else 0x03)"
  by (simp add: first_def)

lemma first_four:
  "0xF0 \<le> n \<Longrightarrow> n \<le> 0xF4 \<Longrightarrow>
     first n = (if n = 0xF0 then 0x34 else if n = 0xF4 then 0x44 else 0x04)"
  by (simp add: first_def)

lemma DecodeRuneInString_size_char:
  assumes "utf8_char e"
  shows "DecodeRuneInString_size e = length e"
  using assms
proof (cases rule: utf8_charE)
  case (one a)
  then show ?thesis by (simp add: DecodeRuneInString_size_def first_def)
next
  case (two a b)
  then show ?thesis
    by (simp add: DecodeRuneInString_size_def first_two acceptRanges_def cont_def)
next
  case (three a b c)
  then show ?thesis
    by (auto simp: DecodeRuneInString_size_def first_three acceptRanges_def cont_def)
next
  case (four a b c d)
  then show ?thesis
    by (auto simp: DecodeRuneInString_size_def first_four acceptRanges_def cont_def)
qed

lemma cont_not_RuneStart: "cont b \<Longrightarrow> \<not> RuneStart b"
  by (simp add: cont_def RuneStart_def)

lemma mod_shift:
  fixes n :: nat
  assumes "64 * q \<le> n" and "n < 64 * q + 64"
  shows "n mod 64 = n - 64 * q"
proof -
  have "n = (n - 64 * q) + 64 * q" using assms by simp
  then have "n mod 64 = ((n - 64 * q) + 64 * q) mod 64" by simp
  also have "\<dots> = (n - 64 * q) mod 64" by (rule mod_mult_self2)
  also have "\<dots> = n - 64 * q" using assms by simp
  finally show ?thesis .
qed

lemma second_byte_E0: "2047 < (i::nat) \<Longrightarrow> i div 4096 = 0 \<Longrightarrow> 32 \<le> i div 64 mod 64"
proof -
  assume a: "2047 < i" "i div 4096 = 0"
  then have "i < 4096" by linarith
  with a have "32 \<le> i div 64" "i div 64 < 64" by linarith+
  then show ?thesis by simp
qed

lemma second_byte_ED: "(i::nat) div 4096 = 13 \<Longrightarrow> \<not> (55296 \<le> i \<and> i \<le> 57343) \<Longrightarrow> i div 64 mod 64 \<le> 31"
proof -
  assume a: "i div 4096 = 13" "\<not> (55296 \<le> i \<and> i \<le> 57343)"
  then have "53248 \<le> i" "i < 55296" by linarith+
  then have b: "64 * 13 \<le> i div 64" "i div 64 < 64 * 13 + 32" by linarith+
  then have "i div 64 mod 64 = i div 64 - 64 * 13" by (intro mod_shift) simp_all
  with b show ?thesis by simp
qed

lemma second_byte_F0: "0xFFFF < (i::nat) \<Longrightarrow> i div 262144 = 0 \<Longrightarrow> 16 \<le> (i div 4096) mod 64"
proof -
  assume a: "0xFFFF < i" "i div 262144 = 0"
  then have "i < 262144" by linarith
  with a have "16 \<le> i div 4096" "i div 4096 < 64" by linarith+
  then show ?thesis by simp
qed

lemma second_byte_F4: "(i::nat) \<le> 0x10FFFF \<Longrightarrow> i div 262144 = 4 \<Longrightarrow> (i div 4096) mod 64 \<le> 15"
proof -
  assume a: "i \<le> 0x10FFFF" "i div 262144 = 4"
  then have "1048576 \<le> i" by linarith
  with a have b: "64 * 4 \<le> i div 4096" "i div 4096 < 64 * 4 + 16" by linarith+
  then have "i div 4096 mod 64 = i div 4096 - 64 * 4" by (intro mod_shift) simp_all
  with b show ?thesis by simp
qed

lemma utf8_char_two:
  fixes a b :: nat
  assumes "2 \<le> a" "a \<le> 31" "b \<le> 63"
  shows "utf8_char [char_of (0xC0 + a), char_of (0x80 + b)]"
  using assms by (simp add: utf8_char_def cont_def)

lemma utf8_char_three:
  fixes a b c :: nat
  assumes "a \<le> 15" "b \<le> 63" "c \<le> 63" "a = 0 \<longrightarrow> 32 \<le> b" "a = 13 \<longrightarrow> b \<le> 31"
  shows "utf8_char [char_of (0xE0 + a), char_of (0x80 + b), char_of (0x80 + c)]"
  using assms by (auto simp: utf8_char_def cont_def)

lemma utf8_char_four:
  fixes a b c d :: nat
  assumes "a \<le> 4" "b \<le> 63" "c \<le> 63" "d \<le> 63" "a = 0 \<longrightarrow> 16 \<le> b" "a = 4 \<longrightarrow> b \<le> 15"
  shows "utf8_char [char_of (0xF0 + a), char_of (0x80 + b), char_of (0x80 + c),
                    char_of (0x80 + d)]"
  using assms by (auto simp: utf8_char_def cont_def)

lemma mod_64_le: "(n::nat) mod 64 \<le> 63"
  by (simp add: less_Suc_eq_le [symmetric] del: less_Suc_eq_le)

lemma utf8_char_EncodeRune: "utf8_char (EncodeRune r)"
proof -
  let ?i = "nat r"
  consider (a) "0 \<le> r" "?i \<le> 0x7F"
    | (b) "0 \<le> r" "0x7F < ?i" "?i \<le> 0x7FF"
    | (e) "r < 0 \<or> ?i > 0x10FFFF \<or> (0xD800 \<le> ?i \<and> ?i \<le> 0xDFFF)" "\<not> (0 \<le> r \<and> ?i \<le> 0x7FF)"
    | (c) "0 \<le> r" "0x7FF < ?i" "?i \<le> 0xFFFF" "\<not> (0xD800 \<le> ?i \<and> ?i \<le> 0xDFFF)"
    | (d) "0 \<le> r" "0xFFFF < ?i" "?i \<le> 0x10FFFF"
    by linarith
  then show ?thesis
  proof cases
    case a
    then show ?thesis by (simp add: EncodeRune_def Let_def utf8_char_def)
  next
    case b
    then have "EncodeRune r = [char_of (0xC0 + ?i div 64), char_of (0x80 + ?i mod 64)]"
      by (simp add: EncodeRune_def Let_def)
    moreover have "2 \<le> ?i div 64" "?i div 64 \<le> 31" using b by linarith+
    ultimately show ?thesis using utf8_char_two [of "?i div 64" "?i mod 64"] mod_64_le by simp
  next
    case e
    then have "EncodeRune r = [char_of (0xEF::nat), char_of (0xBF::nat), char_of (0xBD::nat)]"
      by (auto simp: EncodeRune_def Let_def)
    then show ?thesis by (simp add: utf8_char_def cont_def)
  next
    case c
    then have enc: "EncodeRune r = [char_of (0xE0 + ?i div 4096),
        char_of (0x80 + (?i div 64) mod 64), char_of (0x80 + ?i mod 64)]"
      by (auto simp: EncodeRune_def Let_def)
    have hi: "?i div 4096 \<le> 15" using c by linarith
    have lo: "?i div 4096 = 0 \<longrightarrow> 32 \<le> (?i div 64) mod 64"
      using c second_byte_E0 [of ?i] by simp
    have sur: "?i div 4096 = 13 \<longrightarrow> (?i div 64) mod 64 \<le> 31"
      using c second_byte_ED [of ?i] by simp
    show ?thesis unfolding enc using hi lo sur mod_64_le by (intro utf8_char_three) simp_all
  next
    case d
    then have enc: "EncodeRune r = [char_of (0xF0 + ?i div 262144),
        char_of (0x80 + (?i div 4096) mod 64), char_of (0x80 + (?i div 64) mod 64),
        char_of (0x80 + ?i mod 64)]"
      by (simp add: EncodeRune_def Let_def)
    have hi: "?i div 262144 \<le> 4" using d by linarith
    have lo: "?i div 262144 = 0 \<longrightarrow> 16 \<le> (?i div 4096) mod 64"
      using d second_byte_F0 [of ?i] by simp
    have top: "?i div 262144 = 4 \<longrightarrow> (?i div 4096) mod 64 \<le> 15"
      using d second_byte_F4 [of ?i] by simp
    show ?thesis unfolding enc using hi lo top mod_64_le by (intro utf8_char_four) simp_all
  qed
qed

lemma scan_back_hit:
  "lim \<le> start \<Longrightarrow> RuneStart (s ! nat start) \<Longrightarrow> scan_back s lim start = start"
  by simp

lemma scan_back_miss:
  "lim \<le> start \<Longrightarrow> \<not> RuneStart (s ! nat start) \<Longrightarrow>
     scan_back s lim start = scan_back s lim (start - 1)"
  by simp

lemma nth_tail:
  "z = int (length p) + int k \<Longrightarrow> (p @ e) ! nat z = e ! k"
  by (simp add: nth_append nat_add_distrib)

lemma lead_RuneStart: "0xC2 \<le> byte a \<Longrightarrow> RuneStart a"
  by (simp add: RuneStart_def)

lemma DecodeLastRuneInString_size_multi:
  assumes "s \<noteq> []" and "0x80 \<le> byte (last s)"
    and "scan_back s (if int (length s) - 4 < 0 then 0 else int (length s) - 4)
           (int (length s) - 1 - 1) = st"
    and "0 \<le> st" and "DecodeRuneInString_size (drop (nat st) s) = k"
    and "st + int k = int (length s)"
  shows "DecodeLastRuneInString_size s = k"
proof -
  have "s ! nat (int (length s) - 1) = last s"
    using assms(1) by (simp add: last_conv_nth nat_diff_distrib')
  then show ?thesis
    unfolding DecodeLastRuneInString_size_def Let_def assms(3)
    using assms(1,2,4,5,6) by (simp del: scan_back.simps)
qed

lemma DecodeLastRuneInString_size_char:
  assumes "utf8_char e"
  shows "DecodeLastRuneInString_size (p @ e) = length e"
proof -
  let ?n = "int (length p)"
  let ?s = "p @ e"
  let ?lim = "if int (length ?s) - 4 < 0 then 0 else int (length ?s) - 4"
  have dec: "DecodeRuneInString_size (drop (nat ?n) ?s) = length e"
    using DecodeRuneInString_size_char [OF assms] by simp
  have fin: "?n + int (length e) = int (length ?s)" by simp
  have i0: "?s ! nat ?n = e ! 0" by (rule nth_tail) simp
  have i1: "?s ! nat (?n + 1) = e ! 1" by (rule nth_tail) simp
  have i2: "?s ! nat (?n + 2) = e ! 2" by (rule nth_tail) simp
  have step_down: "?n + 2 - 1 = ?n + 1" "?n + 1 - 1 = ?n" by simp_all
  from assms show ?thesis
  proof (cases rule: utf8_charE)
    case (one a)
    then show ?thesis by (simp add: DecodeLastRuneInString_size_def nth_append)
  next
    case (two a b)
    have len: "int (length ?s) - 1 - 1 = ?n" using two(1) by simp
    have sb: "scan_back ?s ?lim (int (length ?s) - 1 - 1) = ?n"
      unfolding len using two i0 by (intro scan_back_hit) (simp_all add: lead_RuneStart)
    have hi: "0x80 \<le> byte (last ?s)" using two by (simp add: cont_def)
    show ?thesis
      using two(1) by (intro DecodeLastRuneInString_size_multi [OF _ hi sb _ dec fin]) simp_all
  next
    case (three a b c)
    have len: "int (length ?s) - 1 - 1 = ?n + 1" using three(1) by simp
    have "scan_back ?s ?lim (?n + 1) = scan_back ?s ?lim (?n + 1 - 1)"
      using three i1 by (intro scan_back_miss) (simp_all add: cont_not_RuneStart)
    also have "\<dots> = scan_back ?s ?lim ?n" by (simp only: step_down)
    also have "\<dots> = ?n"
      using three i0 by (intro scan_back_hit) (simp_all add: lead_RuneStart)
    finally have sb: "scan_back ?s ?lim (int (length ?s) - 1 - 1) = ?n" unfolding len .
    have hi: "0x80 \<le> byte (last ?s)" using three by (simp add: cont_def)
    show ?thesis
      using three(1) by (intro DecodeLastRuneInString_size_multi [OF _ hi sb _ dec fin]) simp_all
  next
    case (four a b c d)
    have len: "int (length ?s) - 1 - 1 = ?n + 2" using four(1) by simp
    have "scan_back ?s ?lim (?n + 2) = scan_back ?s ?lim (?n + 2 - 1)"
      using four i2 by (intro scan_back_miss) (simp_all add: cont_not_RuneStart)
    also have "\<dots> = scan_back ?s ?lim (?n + 1)" by (simp only: step_down)
    also have "\<dots> = scan_back ?s ?lim (?n + 1 - 1)"
      using four i1 by (intro scan_back_miss) (simp_all add: cont_not_RuneStart)
    also have "\<dots> = scan_back ?s ?lim ?n" by (simp only: step_down)
    also have "\<dots> = ?n"
      using four i0 by (intro scan_back_hit) (simp_all add: lead_RuneStart)
    finally have sb: "scan_back ?s ?lim (int (length ?s) - 1 - 1) = ?n" unfolding len .
    have hi: "0x80 \<le> byte (last ?s)" using four by (simp add: cont_def)
    show ?thesis
      using four(1) by (intro DecodeLastRuneInString_size_multi [OF _ hi sb _ dec fin]) simp_all
  qed
qed

lemma valid_utf8_char_append:
  assumes "utf8_char e"
  shows "valid_utf8 (e @ s) = valid_utf8 s"
  using assms
proof (cases rule: utf8_charE)
  case (one a)
  then show ?thesis by (simp add: utf8_char_def)
next
  case (two a b)
  then show ?thesis by (simp add: utf8_char_def)
next
  case (three a b c)
  then have "utf8_char [a, b, c]" using assms by simp
  with three show ?thesis by (simp add: utf8_char_def)
next
  case (four a b c d)
  then have "utf8_char [a, b, c, d]" using assms by simp
  with four show ?thesis by (simp add: utf8_char_def)
qed

lemma valid_utf8_first:
  assumes "valid_utf8 s" and "s \<noteq> []"
  obtains e t where "utf8_char e" and "s = e @ t" and "valid_utf8 t"
proof -
  obtain a u where s: "s = a # u" using assms(2) by (cases s) auto
  have "\<exists>k<4. utf8_char (a # take k u) \<and> valid_utf8 (drop k u)"
  proof -
    consider "utf8_char [a]" "valid_utf8 u"
      | "utf8_char (a # take 1 u)" "valid_utf8 (drop 1 u)"
      | "utf8_char (a # take 2 u)" "valid_utf8 (drop 2 u)"
      | "utf8_char (a # take 3 u)" "valid_utf8 (drop 3 u)"
      using assms(1) unfolding s by (simp split: if_splits)
    then show ?thesis
    proof cases
      case 1 then show ?thesis by (intro exI [of _ 0]) simp
    next
      case 2 then show ?thesis by (intro exI [of _ 1]) simp
    next
      case 3 then show ?thesis by (intro exI [of _ 2]) simp
    next
      case 4 then show ?thesis by (intro exI [of _ 3]) simp
    qed
  qed
  then obtain k where k: "utf8_char (a # take k u)" "valid_utf8 (drop k u)" by blast
  have "s = (a # take k u) @ drop k u" using s by simp
  with k(1) show thesis using k(2) by (rule that)
qed

lemma valid_utf8_append:
  assumes "valid_utf8 a" and "valid_utf8 b"
  shows "valid_utf8 (a @ b)"
  using assms
proof (induction "length a" arbitrary: a rule: less_induct)
  case less
  show ?case
  proof (cases "a = []")
    case True
    with less.prems show ?thesis by simp
  next
    case False
    obtain e t where et: "utf8_char e" "a = e @ t" "valid_utf8 t"
      by (rule valid_utf8_first [OF less.prems(1) False])
    have "e \<noteq> []" using et(1) by (auto simp: utf8_char_def)
    then have "length t < length a" using et(2) by simp
    then have "valid_utf8 (t @ b)" using et(3) less.prems(2) by (rule less.hyps)
    then show ?thesis using et by (simp add: valid_utf8_char_append)
  qed
qed

lemma utf8_char_tail_cont:
  assumes "utf8_char e" and "0 < i" and "i < length e"
  shows "cont (e ! i)"
  using assms(1)
proof (cases rule: utf8_charE)
  case (one a)
  with assms show ?thesis by simp
next
  case (two a b)
  with assms show ?thesis by (cases i) auto
next
  case (three a b c)
  with assms show ?thesis by (auto simp: nth_Cons split: nat.splits)
next
  case (four a b c d)
  with assms show ?thesis by (auto simp: nth_Cons split: nat.splits)
qed

lemma utf8_char_head:
  assumes "utf8_char e"
  shows "e \<noteq> [] \<and> \<not> cont (hd e)"
  using assms by (cases rule: utf8_charE) (auto simp: cont_def)

lemma valid_utf8_head:
  assumes "valid_utf8 s" and "s \<noteq> []"
  shows "\<not> cont (hd s)"
proof -
  obtain e t where "utf8_char e" "s = e @ t" by (rule valid_utf8_first [OF assms])
  then show ?thesis using utf8_char_head [of e] by simp
qed

lemma valid_utf8_prefix:
  assumes "valid_utf8 (p @ a)" and "valid_utf8 a"
  shows "valid_utf8 p"
  using assms
proof (induction "length p" arbitrary: p rule: less_induct)
  case less
  show ?case
  proof (cases "p = []")
    case True
    then show ?thesis by simp
  next
    case False
    then have ne: "p @ a \<noteq> []" by simp
    obtain e t where et: "utf8_char e" "p @ a = e @ t" "valid_utf8 t"
      by (rule valid_utf8_first [OF less.prems(1) ne])
    have e: "e \<noteq> []" using utf8_char_head [OF et(1)] by simp
    show ?thesis
    proof (cases "length e \<le> length p")
      case True
      then obtain q where q: "p = e @ q" "t = q @ a"
        using et(2) by (auto simp: append_eq_append_conv2)
      have "length q < length p" using q(1) e by simp
      then have "valid_utf8 q" using et(3) less.prems(2) unfolding q(2) by (rule less.hyps)
      then show ?thesis using q(1) et(1) by (simp add: valid_utf8_char_append)
    next
      case long: False
      then have a: "a \<noteq> []" using et(2) by (auto simp: append_eq_append_conv2)
      have "hd a = (p @ a) ! length p" using a by (simp add: hd_conv_nth nth_append)
      also have "\<dots> = e ! length p" using long unfolding et(2) by (simp add: nth_append)
      finally have "cont (hd a)"
        using utf8_char_tail_cont [OF et(1), of "length p"] False long by simp
      then show ?thesis using valid_utf8_head [OF less.prems(2) a] by simp
    qed
  qed
qed

lemma valid_utf8_last:
  assumes "valid_utf8 s" and "s \<noteq> []"
  obtains p e where "utf8_char e" and "s = p @ e" and "valid_utf8 p"
  using assms
proof (induction "length s" arbitrary: s thesis rule: less_induct)
  case less
  obtain e t where et: "utf8_char e" "s = e @ t" "valid_utf8 t"
    by (rule valid_utf8_first [OF less.prems(2,3)])
  have e: "e \<noteq> []" using utf8_char_head [OF et(1)] by simp
  show ?case
  proof (cases "t = []")
    case True
    show ?thesis using et True by (intro less.prems(1) [of e "[]"]) simp_all
  next
    case False
    have "length t < length s" using et(2) e by simp
    then obtain q f where qf: "utf8_char f" "t = q @ f" "valid_utf8 q"
      using less.hyps [of t] et(3) False by blast
    have "valid_utf8 (e @ q)" using et(1) qf(3) by (simp add: valid_utf8_char_append)
    then show ?thesis using qf et(2) by (intro less.prems(1) [of f "e @ q"]) simp_all
  qed
qed

lemma valid_utf8_chop:
  assumes "valid_utf8 s"
  shows "DecodeLastRuneInString_size s \<le> length s
         \<and> valid_utf8 (take (length s - DecodeLastRuneInString_size s) s)"
proof (cases "s = []")
  case True
  then show ?thesis by (simp add: DecodeLastRuneInString_size_def)
next
  case False
  obtain p e where pe: "utf8_char e" "s = p @ e" "valid_utf8 p"
    by (rule valid_utf8_last [OF assms False])
  have "DecodeLastRuneInString_size s = length e"
    unfolding pe(2) using pe(1) by (rule DecodeLastRuneInString_size_char)
  then show ?thesis using pe by simp
qed

lemma valid_utf8_EncodeRune: "valid_utf8 (EncodeRune r)"
  using valid_utf8_char_append [OF utf8_char_EncodeRune, of r "[]"] by simp

lemma div_mod_digit:
  fixes q r m :: nat
  assumes "r < m"
  shows "(q * m + r) div m = q" and "(q * m + r) mod m = r"
  using assms by simp_all

lemma byte_char_of: "char_of (byte a) = a"
  by simp

lemma utf8_char_is_EncodeRune:
  assumes "utf8_char e"
  obtains r where "ValidRune r" and "e = EncodeRune r"
  using assms
proof (cases rule: utf8_charE)
  case (one a)
  then have "EncodeRune (int (byte a)) = e" by (simp add: EncodeRune_def Let_def)
  moreover have "ValidRune (int (byte a))" using one by (simp add: ValidRune_def)
  ultimately show ?thesis using that by blast
next
  case (two a b)
  define A B where "A = byte a - 0xC0" and "B = byte b - 0x80"
  have ab: "byte a = 0xC0 + A" "byte b = 0x80 + B" "2 \<le> A" "A \<le> 31" "B < 64"
    using two by (auto simp: A_def B_def cont_def)
  define i where "i = A * 64 + B"
  have dm: "i div 64 = A" "i mod 64 = B"
    unfolding i_def by (rule div_mod_digit [OF ab(5)])+
  have rng: "0x7F < i" "i \<le> 0x7FF" using ab by (simp_all add: i_def)
  have "EncodeRune (int i) = [char_of (0xC0 + A), char_of (0x80 + B)]"
    using rng dm by (simp add: EncodeRune_def Let_def)
  also have "\<dots> = e" using two(1) ab(1,2) by (metis byte_char_of)
  finally have "EncodeRune (int i) = e" .
  moreover have "ValidRune (int i)" using rng by (simp add: ValidRune_def)
  ultimately show ?thesis using that by blast
next
  case (three a b c)
  define A B C where "A = byte a - 0xE0" and "B = byte b - 0x80" and "C = byte c - 0x80"
  have ab: "byte a = 0xE0 + A" "byte b = 0x80 + B" "byte c = 0x80 + C"
    "A \<le> 15" "B < 64" "C < 64" "A = 0 \<longrightarrow> 32 \<le> B" "A = 13 \<longrightarrow> B \<le> 31"
    using three by (auto simp: A_def B_def C_def cont_def)
  define i where "i = (A * 64 + B) * 64 + C"
  have d1: "i div 64 = A * 64 + B" "i mod 64 = C"
    unfolding i_def by (rule div_mod_digit [OF ab(6)])+
  have d2: "(i div 64) div 64 = A" "(i div 64) mod 64 = B"
    unfolding d1 by (rule div_mod_digit [OF ab(5)])+
  have d3: "i div 4096 = A" using d2(1) by (simp add: div_mult2_eq)
  have rng: "0x7FF < i" "i \<le> 0xFFFF" "\<not> (0xD800 \<le> i \<and> i \<le> 0xDFFF)"
  proof -
    consider "A = 0" "32 \<le> B" | "1 \<le> A" "A \<le> 12" | "A = 13" "B \<le> 31" | "14 \<le> A"
      using ab(7,8) by linarith
    then show "0x7FF < i" "i \<le> 0xFFFF" "\<not> (0xD800 \<le> i \<and> i \<le> 0xDFFF)"
      using ab(4-6) unfolding i_def by (cases; simp)+
  qed
  have "EncodeRune (int i) = [char_of (0xE0 + A), char_of (0x80 + B), char_of (0x80 + C)]"
    using rng d1 d2 d3 by (auto simp: EncodeRune_def Let_def)
  also have "\<dots> = e" using three(1) ab(1,2,3) by (metis byte_char_of)
  finally have "EncodeRune (int i) = e" .
  moreover have "ValidRune (int i)" using rng by (auto simp: ValidRune_def)
  ultimately show ?thesis using that by blast
next
  case (four a b c d)
  define A B C D where "A = byte a - 0xF0" and "B = byte b - 0x80" and "C = byte c - 0x80"
    and "D = byte d - 0x80"
  have ab: "byte a = 0xF0 + A" "byte b = 0x80 + B" "byte c = 0x80 + C" "byte d = 0x80 + D"
    "A \<le> 4" "B < 64" "C < 64" "D < 64" "A = 0 \<longrightarrow> 16 \<le> B" "A = 4 \<longrightarrow> B \<le> 15"
    using four by (auto simp: A_def B_def C_def D_def cont_def)
  define i where "i = ((A * 64 + B) * 64 + C) * 64 + D"
  have d1: "i div 64 = (A * 64 + B) * 64 + C" "i mod 64 = D"
    unfolding i_def by (rule div_mod_digit [OF ab(8)])+
  have d2: "(i div 64) div 64 = A * 64 + B" "(i div 64) mod 64 = C"
    unfolding d1 by (rule div_mod_digit [OF ab(7)])+
  have d3: "((i div 64) div 64) div 64 = A" "((i div 64) div 64) mod 64 = B"
    unfolding d2 by (rule div_mod_digit [OF ab(6)])+
  have d4: "i div 4096 = A * 64 + B" using d2(1) by (simp add: div_mult2_eq)
  have d5: "i div 262144 = A" using d3(1) by (simp add: div_mult2_eq)
  have d6: "(i div 4096) mod 64 = B" using d3(2) d4 d2(1) by simp
  have rng: "0xFFFF < i" "i \<le> 0x10FFFF"
  proof -
    consider "A = 0" "16 \<le> B" | "1 \<le> A" "A \<le> 3" | "A = 4" "B \<le> 15"
      using ab(5,9,10) by linarith
    then show "0xFFFF < i" "i \<le> 0x10FFFF"
      using ab(5-8) unfolding i_def by (cases; simp)+
  qed
  have "EncodeRune (int i) =
          [char_of (0xF0 + A), char_of (0x80 + B), char_of (0x80 + C), char_of (0x80 + D)]"
    using rng d1 d2 d5 d6 by (auto simp: EncodeRune_def Let_def)
  also have "\<dots> = e" using four(1) ab(1,2,3,4) by (metis byte_char_of)
  finally have "EncodeRune (int i) = e" .
  moreover have "ValidRune (int i)" using rng by (simp add: ValidRune_def)
  ultimately show ?thesis using that by blast
qed

subsection \<open>Rune boundaries\<close>

lemma first_range:
  "first b \<in> {0xF0, 0xF1, 0x02, 0x13, 0x03, 0x23, 0x34, 0x04, 0x44}"
  by (simp add: first_def)

lemma DecodeRuneInString_size_bounds:
  assumes "s \<noteq> []"
  shows "1 \<le> DecodeRuneInString_size s" and "DecodeRuneInString_size s \<le> 4"
  using assms
  by (auto simp: DecodeRuneInString_size_def Let_def split: prod.splits)

lemma DecodeRuneInString_size_conts:
  assumes "DecodeRuneInString_size s = k" and "2 \<le> k"
  shows "k \<le> length s \<and> cont (s ! 1) \<and> (3 \<le> k \<longrightarrow> cont (s ! 2))
         \<and> (4 \<le> k \<longrightarrow> cont (s ! 3))"
proof -
  let ?x = "first (byte (s ! 0))"
  have ne: "\<not> length s < 1" and lt: "\<not> 0xF0 \<le> ?x"
    using assms by (auto simp: DecodeRuneInString_size_def Let_def split: if_splits)
  then consider "?x = 0x02" | "?x = 0x13" | "?x = 0x03" | "?x = 0x23" | "?x = 0x34"
    | "?x = 0x04" | "?x = 0x44"
    using first_range [of "byte (s ! 0)"] by auto
  then show ?thesis
    using assms ne
    by cases
       (auto simp: DecodeRuneInString_size_def Let_def acceptRanges_def cont_def
             split: if_splits)
qed

lemma DecodeRuneInString_size_tail:
  assumes "DecodeRuneInString_size s = k" and "1 \<le> i" and "i < k"
  shows "k \<le> length s \<and> cont (s ! i)"
proof -
  have k: "2 \<le> k" using assms(2,3) by simp
  have "s \<noteq> []" using assms(1) k by (auto simp: DecodeRuneInString_size_def)
  then have "k \<le> 4" using DecodeRuneInString_size_bounds(2) [of s] assms(1) by simp
  then consider "i = 1" | "i = 2" "3 \<le> k" | "i = 3" "4 \<le> k"
    using assms(2,3) by linarith
  then show ?thesis
    using DecodeRuneInString_size_conts [OF assms(1) k] by cases simp_all
qed

lemma DecodeRuneInString_size_no_cross:
  assumes "X \<noteq> []" and "Y = [] \<or> \<not> cont (hd Y)"
  shows "1 \<le> DecodeRuneInString_size (X @ Y) \<and> DecodeRuneInString_size (X @ Y) \<le> length X"
proof -
  let ?k = "DecodeRuneInString_size (X @ Y)"
  have one: "1 \<le> ?k" using DecodeRuneInString_size_bounds(1) [of "X @ Y"] assms(1) by simp
  have "?k \<le> length X"
  proof (rule ccontr)
    assume "\<not> ?k \<le> length X"
    then have lt: "length X < ?k" by simp
    moreover have "1 \<le> length X" using assms(1) by (cases X) simp_all
    ultimately have t: "?k \<le> length (X @ Y)" "cont ((X @ Y) ! length X)"
      using DecodeRuneInString_size_tail [OF refl, of "length X" "X @ Y"] by simp_all
    then have "Y \<noteq> []" using lt by auto
    moreover from this have "(X @ Y) ! length X = hd Y" by (simp add: hd_conv_nth nth_append)
    ultimately show False using t(2) assms(2) by simp
  qed
  with one show ?thesis by simp
qed

lemma rune_boundary_append:
  assumes "Y = [] \<or> \<not> cont (hd Y)"
  shows "rune_boundary (X @ Y) (length X)"
proof (induction "length X" arbitrary: X rule: less_induct)
  case less
  show ?case
  proof (cases "X = []")
    case True
    then show ?thesis by simp
  next
    case False
    let ?k = "DecodeRuneInString_size (X @ Y)"
    have k: "1 \<le> ?k" "?k \<le> length X"
      using DecodeRuneInString_size_no_cross [OF False assms] by simp_all
    have "length (drop ?k X) < length X" using k False by simp
    then have "rune_boundary (drop ?k X @ Y) (length (drop ?k X))" by (rule less.hyps)
    moreover have "drop ?k (X @ Y) = drop ?k X @ Y" using k(2) by simp
    ultimately have "rune_boundary (drop ?k (X @ Y)) (length X - ?k)" by simp
    then show ?thesis
      using k False by (subst rune_boundary.simps) (simp add: Let_def del: rune_boundary.simps)
  qed
qed

lemma DecodeLastRuneInString_size_le: "DecodeLastRuneInString_size s \<le> length s"
proof (cases "s = []")
  case True
  then show ?thesis by (simp add: DecodeLastRuneInString_size_def)
next
  case False
  then have "1 \<le> length s" by (cases s) simp_all
  then show ?thesis
    unfolding DecodeLastRuneInString_size_def Let_def
    by (auto simp del: scan_back.simps)
qed

subsection \<open>The invariant\<close>

lemma handleKeyEvent_Backspace:
  assumes "\<not> pasting w" and "Dot (CodeBuffer (State w)) = int n"
    and "n \<le> length (Content (CodeBuffer (State w)))"
    and "chop = DecodeLastRuneInString_size (take n (Content (CodeBuffer (State w))))"
    and "chop \<le> n"
  shows "handleKeyEvent x w (K Backspace) =
           Some ((resetInserts w)\<lparr>State := (State w)\<lparr>CodeBuffer :=
                   \<lparr>Content = take (n - chop) (Content (CodeBuffer (State w)))
                               @ drop n (Content (CodeBuffer (State w))),
                    Dot = int (n - chop)\<rparr>\<rparr>\<rparr>, True)"
proof -
  have ne: "K Backspace \<noteq> K Enter" by (simp add: K_def Backspace_def Enter_def)
  show ?thesis
    using assms(1,2,3,5) ne unfolding assms(4)
    by (simp add: handleKeyEvent_def MutateCodeAreaState_def resetInserts_def
          slice_to_def slice_from_def Let_def nat_diff_distrib' flip: of_nat_diff)
qed

lemma text_class_valid_utf8: "text_class valid_utf8"
  unfolding text_class_def
proof (intro conjI allI impI)
  show "valid_utf8 []" by simp
  show "valid_utf8 (EncodeRune r)" for r by (rule valid_utf8_EncodeRune)
  show "valid_utf8 (a @ b)" if "valid_utf8 a" "valid_utf8 b" for a b
    using that by (rule valid_utf8_append)
  show "valid_utf8 p" if "valid_utf8 (p @ a)" "valid_utf8 a" for p a
    using that by (rule valid_utf8_prefix)
  show "valid_utf8 (take (length s - DecodeLastRuneInString_size s) s)" if "valid_utf8 s" for s
    using valid_utf8_chop [OF that] by simp
qed

lemma text_class_any_text: "text_class any_text"
  by (simp add: text_class_def any_text_def)

lemma text_classD:
  assumes "text_class V"
  shows "V []" and "V (EncodeRune r)" and "V a \<Longrightarrow> V b \<Longrightarrow> V (a @ b)"
    and "V (p @ a) \<Longrightarrow> V a \<Longrightarrow> V p"
    and "V s \<Longrightarrow> V (take (length s - DecodeLastRuneInString_size s) s)"
proof -
  note c = assms [unfolded text_class_def]
  show "V []" by (rule c [THEN conjunct1])
  show "V (EncodeRune r)" by (rule c [THEN conjunct2, THEN conjunct1, rule_format])
  show "V a \<Longrightarrow> V b \<Longrightarrow> V (a @ b)"
    by (rule c [THEN conjunct2, THEN conjunct2, THEN conjunct1, rule_format])
  show "V (p @ a) \<Longrightarrow> V a \<Longrightarrow> V p"
    by (rule c [THEN conjunct2, THEN conjunct2, THEN conjunct2, THEN conjunct1, rule_format])
  show "V s \<Longrightarrow> V (take (length s - DecodeLastRuneInString_size s) s)"
    by (rule c [THEN conjunct2, THEN conjunct2, THEN conjunct2, THEN conjunct2, rule_format])
qed

lemma buffer_invE:
  assumes "buffer_inv V c"
  obtains n where "Dot c = int n" and "n \<le> length (Content c)"
    and "V (take n (Content c))" and "valid_utf8 (drop n (Content c))"
proof -
  have "Dot c = int (nat (Dot c))" "nat (Dot c) \<le> length (Content c)"
    using assms by (auto simp: buffer_inv_def nat_le_iff)
  then show thesis using assms that unfolding buffer_inv_def by blast
qed

lemma buffer_inv_append:
  "V A \<Longrightarrow> valid_utf8 B \<Longrightarrow> buffer_inv V \<lparr>Content = A @ B, Dot = int (length A)\<rparr>"
  by (simp add: buffer_inv_def)

lemma buffer_inv_InsertAtDot:
  assumes "text_class V" and "buffer_inv V c" and "V t"
  shows "\<exists>c'. InsertAtDot c t = Some c' \<and> buffer_inv V c'"
proof -
  obtain n where n: "Dot c = int n" "n \<le> length (Content c)"
    "V (take n (Content c))" "valid_utf8 (drop n (Content c))"
    using assms(2) by (rule buffer_invE)
  let ?A = "take n (Content c) @ t"
  have len: "int (length ?A) = int n + int (length t)" using n(2) by simp
  have "InsertAtDot c t = Some \<lparr>Content = ?A @ drop n (Content c), Dot = int (length ?A)\<rparr>"
    unfolding len using n(1,2) by (simp add: InsertAtDot_Some)
  moreover have "V ?A" using n(3) assms(3) by (rule text_classD(3) [OF assms(1)])
  ultimately show ?thesis
    using buffer_inv_append [of V ?A "drop n (Content c)", OF _ n(4)] by simp
qed

lemma inv_paste:
  assumes "text_class V" and "widget_inv V w" and "config_inv V x (Config w)"
  shows "\<exists>w'. handlePasteSetting x w start = Some (w', True) \<and> widget_inv V w'
              \<and> Config w' = Config w"
proof (cases start)
  case True
  then show ?thesis
    using assms(1,2) text_classD(1)
    by (simp add: handlePasteSetting_def widget_inv_def tracking_ok_def resetInserts_def)
next
  case False
  let ?t = "if QuotePaste (Config w) then Quote x (pasteBuffer w) else pasteBuffer w"
  have t: "V ?t" using assms(2,3) by (simp add: widget_inv_def config_inv_def)
  have "buffer_inv V (CodeBuffer (State w))" using assms(2) by (simp add: widget_inv_def)
  then obtain c' where c': "InsertAtDot (CodeBuffer (State w)) ?t = Some c'" "buffer_inv V c'"
    using buffer_inv_InsertAtDot [OF assms(1) _ t] by blast
  have "handlePasteSetting x w False =
          Some ((resetInserts w)\<lparr>State := (State w)\<lparr>CodeBuffer := c'\<rparr>,
                  pasting := False, pasteBuffer := []\<rparr>, True)"
    using c'(1)
    by (cases "QuotePaste (Config w)")
       (simp_all add: handlePasteSetting_def MutateCodeAreaState_def resetInserts_def Let_def)
  then show ?thesis
    using False c'(2) text_classD(1) [OF assms(1)]
    by (simp add: widget_inv_def tracking_ok_def resetInserts_def)
qed

lemma inv_backspace:
  assumes "text_class V" and "widget_inv V w" and "\<not> pasting w"
  shows "\<exists>w'. handleKeyEvent x w (K Backspace) = Some (w', True) \<and> widget_inv V w'
              \<and> Config w' = Config w"
proof -
  let ?c = "CodeBuffer (State w)"
  obtain n where n: "Dot ?c = int n" "n \<le> length (Content ?c)"
    "V (take n (Content ?c))" "valid_utf8 (drop n (Content ?c))"
    using assms(2) unfolding widget_inv_def by (blast elim: buffer_invE)
  define chop where "chop = DecodeLastRuneInString_size (take n (Content ?c))"
  have le: "chop \<le> n"
    using DecodeLastRuneInString_size_le [of "take n (Content ?c)"] n(2) by (simp add: chop_def)
  have "V (take (length (take n (Content ?c)) - chop) (take n (Content ?c)))"
    unfolding chop_def using n(3) by (rule text_classD(5) [OF assms(1)])
  moreover have "take (n - chop) (take n (Content ?c)) = take (n - chop) (Content ?c)"
    by (simp add: min_def)
  ultimately have v: "V (take (n - chop) (Content ?c))" using n(2) by simp
  have "length (take (n - chop) (Content ?c)) = n - chop" using n(2) by simp
  then have ok: "buffer_inv V \<lparr>Content = take (n - chop) (Content ?c) @ drop n (Content ?c),
                               Dot = int (n - chop)\<rparr>"
    using buffer_inv_append [of V "take (n - chop) (Content ?c)" "drop n (Content ?c)", OF v n(4)]
    by simp
  show ?thesis
    unfolding handleKeyEvent_Backspace [OF assms(3) n(1,2) chop_def le]
    using ok assms(2) by (simp add: widget_inv_def tracking_ok_def resetInserts_def)
qed

lemma inv_graphic:
  assumes tc: "text_class V" and ok: "widget_inv V w" and cfg: "config_inv V x (Config w)"
    and np: "\<not> pasting w" and nf: "\<not> isFuncKey key" and gr: "IsGraphic x (Rune key)"
  shows "\<exists>w'. handleKeyEvent x w key = Some (w', True) \<and> widget_inv V w'
              \<and> Config w' = Config w"
proof -
  let ?c = "CodeBuffer (State w)"
  let ?d = "nat (Dot ?c)"
  define ins where "ins = (if lastCodeBuffer w \<noteq> ?c then [] else inserts w)
                            @ EncodeRune (Rune key)"
  define X where "X = take ?d (Content ?c) @ EncodeRune (Rune key)"
  define Y where "Y = drop ?d (Content ?c)"
  have b: "buffer_inv V ?c" and pb: "V (pasteBuffer w)" and tr: "tracking_ok w"
    and pe: "\<not> pasting w \<longrightarrow> pasteBuffer w = []"
    using ok by (simp_all add: widget_inv_def)
  have d: "0 \<le> Dot ?c" "Dot ?c \<le> int (length (Content ?c))"
    using b by (simp_all add: buffer_inv_def)
  have t: "lastCodeBuffer w = ?c \<longrightarrow> suffix (inserts w) (take ?d (Content ?c))"
    using tr by (cases "inserts w = []") (auto simp: tracking_ok_def)
  have "V (take ?d (Content ?c))" using b by (simp add: buffer_inv_def)
  then have vX: "V X" unfolding X_def using text_classD(2) [OF tc] by (rule text_classD(3) [OF tc])
  have vY: "valid_utf8 Y" using b by (simp add: Y_def buffer_inv_def)
  obtain w' where w': "handleKeyEvent x w key = Some (w', True)"
    and c: "Config w' = Config w" and p: "pasteBuffer w' = pasteBuffer w"
    and pg: "pasting w' = pasting w" and sx: "suffix ins X"
    and r: "case longest_match ins (filter (\<lambda>p. fst p \<noteq> []) (Abbreviations (Config w))) of
              None \<Rightarrow>
                CodeBuffer (State w') = \<lparr>Content = X @ Y, Dot = int (length X)\<rparr>
                \<and> inserts w' = ins \<and> lastCodeBuffer w' = CodeBuffer (State w')
            | Some (abbr, full) \<Rightarrow>
                suffix abbr X
                \<and> CodeBuffer (State w') =
                    \<lparr>Content = take (length X - length abbr) X @ full @ Y,
                     Dot = int (length X - length abbr + length full)\<rparr>
                \<and> inserts w' = [] \<and> lastCodeBuffer w' = \<lparr>Content = [], Dot = 0\<rparr>"
    using handleKeyEvent_graphic_choice [OF np nf gr d t ins_def X_def Y_def] by blast
  have "widget_inv V w'"
  proof (cases "longest_match ins (filter (\<lambda>p. fst p \<noteq> []) (Abbreviations (Config w)))")
    case None
    with r have s: "CodeBuffer (State w') = \<lparr>Content = X @ Y, Dot = int (length X)\<rparr>"
      "inserts w' = ins" "lastCodeBuffer w' = CodeBuffer (State w')" by simp_all
    have "buffer_inv V (CodeBuffer (State w'))"
      unfolding s(1) using vX vY by (rule buffer_inv_append)
    moreover have "tracking_ok w'"
      using sx by (simp add: tracking_ok_def s)
    ultimately show ?thesis using pb pe p pg by (simp add: widget_inv_def)
  next
    case (Some q)
    obtain a f where q: "q = (a, f)" by (cases q)
    from r Some q have s: "suffix a X"
      "CodeBuffer (State w') = \<lparr>Content = take (length X - length a) X @ f @ Y,
                                  Dot = int (length X - length a + length f)\<rparr>"
      "inserts w' = []" by simp_all
    have "(a, f) \<in> set (Abbreviations (Config w))"
      using longest_match_SomeD [OF Some] q by simp
    then have va: "V a" and vf: "V f"
      using cfg by (auto simp: config_inv_def)
    obtain P where P: "X = P @ a" using s(1) by (auto simp: suffix_def)
    have vP: "V P" using vX va unfolding P by (rule text_classD(4) [OF tc])
    have Pf: "V (P @ f)" using vP vf by (rule text_classD(3) [OF tc])
    have "take (length X - length a) X = P" using P by simp
    then have "CodeBuffer (State w') = \<lparr>Content = (P @ f) @ Y, Dot = int (length (P @ f))\<rparr>"
      using s(2) P by simp
    then have "buffer_inv V (CodeBuffer (State w'))"
      using buffer_inv_append [of V "P @ f" Y, OF Pf vY] by simp
    then show ?thesis using pb pe p pg s(3) by (simp add: widget_inv_def tracking_ok_def)
  qed
  with w' c show ?thesis by blast
qed

lemma inv_key:
  assumes tc: "text_class V" and ok: "widget_inv V w" and cfg: "config_inv V x (Config w)"
  shows "\<exists>w' handled. handleKeyEvent x w key = Some (w', handled) \<and> widget_inv V w'
              \<and> Config w' = Config w"
proof -
  consider (paste_drop) "pasting w" "isFuncKey key"
    | (paste_keep) "pasting w" "\<not> isFuncKey key"
    | (enter) "\<not> pasting w" "key = K Enter"
    | (backspace) "\<not> pasting w" "key \<noteq> K Enter" "key = K Backspace"
    | (other) "\<not> pasting w" "key \<noteq> K Enter" "key \<noteq> K Backspace"
        "isFuncKey key \<or> \<not> IsGraphic x (Rune key)"
    | (graphic) "\<not> pasting w" "\<not> isFuncKey key" "IsGraphic x (Rune key)"
    by blast
  then show ?thesis
  proof cases
    case paste_drop
    then show ?thesis using ok by (auto simp: handleKeyEvent_def)
  next
    case paste_keep
    then have r: "0 \<le> Rune key" by (simp add: isFuncKey_def)
    have "V (pasteBuffer w)" using ok by (simp add: widget_inv_def)
    then have "V (pasteBuffer w @ EncodeRune (Rune key))"
      using text_classD(2) [OF tc] by (rule text_classD(3) [OF tc])
    then have "V (WriteRune (pasteBuffer w) (Rune key))" using r by (simp add: WriteRune_EncodeRune)
    then show ?thesis
      using paste_keep ok by (auto simp: handleKeyEvent_def widget_inv_def tracking_ok_def)
  next
    case enter
    then show ?thesis
      using ok
      by (auto simp: handleKeyEvent_def Submit_def resetInserts_def widget_inv_def tracking_ok_def)
  next
    case backspace
    then show ?thesis using inv_backspace [OF tc ok, of x] by blast
  next
    case other
    then show ?thesis
      using ok
      by (auto simp: handleKeyEvent_def resetInserts_def widget_inv_def tracking_ok_def)
  next
    case graphic
    then show ?thesis using inv_graphic [OF tc ok cfg] by blast
  qed
qed

lemma inv_widget_Handle:
  assumes tc: "text_class V" and ok: "widget_inv V w" and cfg: "config_inv V x (Config w)"
  shows "\<exists>w' handled. widget_Handle x w event = Some (w', handled) \<and> widget_inv V w'
              \<and> Config w' = Config w"
proof -
  obtain h s where o: "OverlayHandler (Config w) event (State w) = (h, s)"
    by (cases "OverlayHandler (Config w) event (State w)")
  have "buffer_inv V (CodeBuffer (snd (OverlayHandler (Config w) event (State w))))"
    using ok cfg by (simp add: widget_inv_def config_inv_def)
  then have ok1: "widget_inv V (w\<lparr>State := s\<rparr>)"
    using ok o by (simp add: widget_inv_def tracking_ok_def)
  have cfg1: "config_inv V x (Config (w\<lparr>State := s\<rparr>))" using cfg by simp
  show ?thesis
  proof (cases h)
    case True
    then show ?thesis using o ok1 by (auto simp: widget_Handle_def)
  next
    case False
    show ?thesis
    proof (cases event)
      case (KeyEvent key)
      then show ?thesis
        using o False inv_key [OF tc ok1 cfg1, of key] by (auto simp: widget_Handle_def)
    next
      case (PasteSetting start)
      then show ?thesis
        using o False inv_paste [OF tc ok1 cfg1, of start] by (auto simp: widget_Handle_def)
    next
      case OtherEvent
      then show ?thesis using o False ok1 by (auto simp: widget_Handle_def)
    qed
  qed
qed

lemma Handle_all_inv:
  assumes "text_class V" and "widget_inv V w" and "config_inv V x (Config w)"
  shows "\<exists>w'. Handle_all x w events = Some w' \<and> widget_inv V w' \<and> Config w' = Config w"
  using assms(2,3)
proof (induction events arbitrary: w)
  case Nil
  then show ?case by simp
next
  case (Cons event events)
  obtain w1 handled where s: "widget_Handle x w event = Some (w1, handled)"
    "widget_inv V w1" "Config w1 = Config w"
    using inv_widget_Handle [OF assms(1) Cons.prems] by blast
  then obtain w' where "Handle_all x w1 events = Some w'" "widget_inv V w'" "Config w' = Config w1"
    using Cons.IH [of w1] Cons.prems(2) by auto
  then show ?case using s by simp
qed

text \<open>
  Every state that a new widget reaches satisfies what the theorems on single events
  assume: the dot lies within the content, the paste buffer is empty unless the widget
  is pasting, and the inserted text ends the text before the dot whenever the buffer is
  the one last seen.
\<close>

lemma reachable_state:
  assumes "dot_ok (CodeBuffer state)"
    and "\<forall>event s. dot_ok (CodeBuffer s) \<longrightarrow>
           dot_ok (CodeBuffer (snd (OverlayHandler cfg event s)))"
    and "Handle_all x (NewWithState cfg state) events = Some w"
  shows "0 \<le> Dot (CodeBuffer (State w))
         \<and> Dot (CodeBuffer (State w)) \<le> int (length (Content (CodeBuffer (State w))))
         \<and> (\<not> pasting w \<longrightarrow> pasteBuffer w = [])
         \<and> (lastCodeBuffer w = CodeBuffer (State w) \<longrightarrow>
              suffix (inserts w)
                (take (nat (Dot (CodeBuffer (State w)))) (Content (CodeBuffer (State w)))))"
proof -
  let ?w = "NewWithState cfg state"
  have "widget_inv any_text ?w"
    using assms(1) by (simp add: widget_inv_def tracking_ok_def NewWithState_def any_text_def
                         dot_ok_def)
  moreover have "config_inv any_text x (Config ?w)"
    using assms(2) by (simp add: config_inv_def NewWithState_def any_text_def dot_ok_def)
  ultimately have inv: "widget_inv any_text w"
    using Handle_all_inv [OF text_class_any_text, of ?w x events] assms(3) by auto
  then have "tracking_ok w" by (simp add: widget_inv_def)
  then have "lastCodeBuffer w = CodeBuffer (State w) \<longrightarrow>
               suffix (inserts w)
                 (take (nat (Dot (CodeBuffer (State w)))) (Content (CodeBuffer (State w))))"
    by (cases "inserts w = []") (auto simp: tracking_ok_def)
  then show ?thesis using inv by (simp add: widget_inv_def buffer_inv_def)
qed

lemma buffer_inv_boundary:
  assumes "buffer_inv V c"
  shows "rune_boundary (Content c) (nat (Dot c))"
proof -
  obtain n where n: "Dot c = int n" "n \<le> length (Content c)" "valid_utf8 (drop n (Content c))"
    using assms by (rule buffer_invE)
  let ?Y = "drop n (Content c)"
  have "?Y = [] \<or> \<not> cont (hd ?Y)" using valid_utf8_head [OF n(3)] by blast
  then have "rune_boundary (take n (Content c) @ ?Y) (length (take n (Content c)))"
    by (rule rune_boundary_append)
  then show ?thesis using n(1,2) by simp
qed

text \<open>
  C3. In the normal state, for every buffer whose dot lies within the content with valid
  text before it, a Backspace key is handled without a panic. When the dot is 0 the
  buffer is unchanged. Otherwise the text before the dot ends with the encoding of one
  code point: exactly the bytes of this encoding are removed, and the dot goes back by
  their number.
\<close>

theorem backspace_removes_codepoint:
  assumes "\<not> pasting w"
    and "0 \<le> Dot (CodeBuffer (State w))"
    and "Dot (CodeBuffer (State w)) \<le> int (length (Content (CodeBuffer (State w))))"
    and "valid_utf8 (take (nat (Dot (CodeBuffer (State w)))) (Content (CodeBuffer (State w))))"
  shows "\<exists>w'. handleKeyEvent x w (K Backspace) = Some (w', True)
           \<and> (Dot (CodeBuffer (State w)) = 0 \<longrightarrow> CodeBuffer (State w') = CodeBuffer (State w))
           \<and> (0 < Dot (CodeBuffer (State w)) \<longrightarrow>
                (\<exists>P r. ValidRune r
                   \<and> take (nat (Dot (CodeBuffer (State w)))) (Content (CodeBuffer (State w)))
                       = P @ EncodeRune r
                   \<and> CodeBuffer (State w') =
                       \<lparr>Content = P @ drop (nat (Dot (CodeBuffer (State w))))
                                          (Content (CodeBuffer (State w))),
                        Dot = Dot (CodeBuffer (State w)) - int (length (EncodeRune r))\<rparr>))"
proof -
  let ?c = "CodeBuffer (State w)"
  define n where "n = nat (Dot ?c)"
  have n: "Dot ?c = int n" "n \<le> length (Content ?c)" "valid_utf8 (take n (Content ?c))"
    using assms(2,3,4) by (simp_all add: n_def)
  define chop where "chop = DecodeLastRuneInString_size (take n (Content ?c))"
  have le: "chop \<le> n" using valid_utf8_chop [OF n(3)] n(2) by (simp add: chop_def)
  let ?w' = "(resetInserts w)\<lparr>State := (State w)\<lparr>CodeBuffer :=
               \<lparr>Content = take (n - chop) (Content ?c) @ drop n (Content ?c),
                Dot = int (n - chop)\<rparr>\<rparr>\<rparr>"
  have run: "handleKeyEvent x w (K Backspace) = Some (?w', True)"
    by (rule handleKeyEvent_Backspace [OF assms(1) n(1,2) chop_def le])
  have zero: "CodeBuffer (State ?w') = ?c" if "Dot ?c = 0"
  proof -
    have "n = 0" using that n(1) by simp
    then show ?thesis using n(1) by (simp add: chop_def DecodeLastRuneInString_size_def)
  qed
  have pos: "\<exists>P r. ValidRune r \<and> take (nat (Dot ?c)) (Content ?c) = P @ EncodeRune r
               \<and> CodeBuffer (State ?w') =
                   \<lparr>Content = P @ drop (nat (Dot ?c)) (Content ?c),
                    Dot = Dot ?c - int (length (EncodeRune r))\<rparr>" if "0 < Dot ?c"
  proof -
    have "take n (Content ?c) \<noteq> []" using that n(1,2) by auto
    then obtain P e where Pe: "utf8_char e" "take n (Content ?c) = P @ e"
      using valid_utf8_last [OF n(3)] by blast
    obtain r where r: "ValidRune r" "e = EncodeRune r"
      using utf8_char_is_EncodeRune [OF Pe(1)] by blast
    have c: "chop = length e"
      unfolding chop_def Pe(2) using Pe(1) by (rule DecodeLastRuneInString_size_char)
    have len: "n = length P + length e"
      using Pe(2) n(2) by (metis length_append length_take min.absorb2)
    have tp: "take (length P) (Content ?c) = P"
    proof -
      have "take (length P) (take n (Content ?c)) = P" unfolding Pe(2) by simp
      then show ?thesis using len by (simp add: min_def)
    qed
    have "n - chop = length P" using c len by simp
    then have "take (n - chop) (Content ?c) = P" using tp by simp
    then have "CodeBuffer (State ?w') = \<lparr>Content = P @ drop n (Content ?c),
                                           Dot = int n - int (length e)\<rparr>"
      using c len by simp
    then show ?thesis using r Pe(2) n(1) by auto
  qed
  show ?thesis using run zero pos by blast
qed

theorem backspace_removes_codepoint_witness:
  "\<not> pasting cafe_widget \<and> buffer_ok (CodeBuffer (State cafe_widget))
   \<and> handleKeyEvent example_extern cafe_widget (K Backspace) =
       Some (cafe_widget\<lparr>State := \<lparr>CodeBuffer = \<lparr>Content = ''caf'', Dot = 3\<rparr>\<rparr>,
               calls := [Call_resetInserts]\<rparr>, True)"
proof -
  have np: "\<not> pasting cafe_widget" by (simp add: cafe_widget_def NewWithState_def)
  have ok: "buffer_ok (CodeBuffer (State cafe_widget))"
    by (simp add: cafe_widget_def NewWithState_def buffer_ok_def buffer_inv_def utf8_char_def
          cont_def)
  have d: "0 \<le> Dot (CodeBuffer (State cafe_widget))"
    "Dot (CodeBuffer (State cafe_widget))
       \<le> int (length (Content (CodeBuffer (State cafe_widget))))"
    "valid_utf8 (take (nat (Dot (CodeBuffer (State cafe_widget))))
                   (Content (CodeBuffer (State cafe_widget))))"
    using ok by (simp_all add: buffer_ok_def buffer_inv_def)
  have e: "utf8_char [CHR 0xC3, CHR 0xA9]" by (simp add: utf8_char_def cont_def)
  have chop: "2 = DecodeLastRuneInString_size
                    (take 5 (Content (CodeBuffer (State cafe_widget))))"
    using DecodeLastRuneInString_size_char [OF e, of "''caf''"]
    by (simp add: cafe_widget_def NewWithState_def)
  have "handleKeyEvent example_extern cafe_widget (K Backspace) =
          Some (cafe_widget\<lparr>State := \<lparr>CodeBuffer = \<lparr>Content = ''caf'', Dot = 3\<rparr>\<rparr>,
                  calls := [Call_resetInserts]\<rparr>, True)"
    using handleKeyEvent_Backspace [OF np _ _ chop, of example_extern]
    by (simp add: cafe_widget_def NewWithState_def resetInserts_def)
  then show ?thesis
    using np ok backspace_removes_codepoint [OF np d, of example_extern] by simp
qed

text \<open>
  C4. Start from a new widget whose buffer satisfies the invariant, with an overlay
  handler that keeps the dot within the content and in front of valid text. Then every
  sequence of events is handled without a panic, and in the state reached the dot lies
  within the content and on a boundary between runes: no encoded code point straddles
  it. When moreover the configuration is valid (abbreviations, expansions and quoted
  text are valid text and the overlay handler keeps the invariant), the invariant holds
  in full: the content before the dot and the content after it are valid text.
\<close>

theorem dot_stays_on_boundary:
  assumes "buffer_ok (CodeBuffer state)"
    and "\<forall>event s. dot_ok (CodeBuffer s) \<longrightarrow>
           dot_ok (CodeBuffer (snd (OverlayHandler cfg event s)))"
  shows "\<exists>w'. Handle_all x (NewWithState cfg state) events = Some w'
           \<and> 0 \<le> Dot (CodeBuffer (State w'))
           \<and> Dot (CodeBuffer (State w')) \<le> int (length (Content (CodeBuffer (State w'))))
           \<and> rune_boundary (Content (CodeBuffer (State w'))) (nat (Dot (CodeBuffer (State w'))))
           \<and> (valid_Config x cfg \<longrightarrow> buffer_ok (CodeBuffer (State w')))"
proof -
  let ?w = "NewWithState cfg state"
  have b: "buffer_inv valid_utf8 (CodeBuffer state)" using assms(1) by (simp add: buffer_ok_def)
  then have "buffer_inv any_text (CodeBuffer state)" by (simp add: buffer_inv_def any_text_def)
  then have "widget_inv any_text ?w"
    by (simp add: widget_inv_def tracking_ok_def NewWithState_def any_text_def)
  moreover have "config_inv any_text x (Config ?w)"
    using assms(2) by (simp add: config_inv_def NewWithState_def any_text_def dot_ok_def)
  ultimately obtain w' where w': "Handle_all x ?w events = Some w'" "widget_inv any_text w'"
    using Handle_all_inv [OF text_class_any_text, of ?w x events] by blast
  have c: "buffer_inv any_text (CodeBuffer (State w'))" using w'(2) by (simp add: widget_inv_def)
  have full: "buffer_ok (CodeBuffer (State w'))" if "valid_Config x cfg"
  proof -
    have "widget_inv valid_utf8 ?w"
      using b by (simp add: widget_inv_def tracking_ok_def NewWithState_def)
    moreover have "config_inv valid_utf8 x (Config ?w)"
      using that by (simp add: valid_Config_def NewWithState_def)
    ultimately obtain v where "Handle_all x ?w events = Some v" "widget_inv valid_utf8 v"
      using Handle_all_inv [OF text_class_valid_utf8, of ?w x events] by blast
    then show ?thesis using w'(1) by (simp add: widget_inv_def buffer_ok_def)
  qed
  show ?thesis
    using w'(1) c buffer_inv_boundary [OF c] full by (auto simp: buffer_inv_def)
qed

lemma valid_utf8_quote_single: "valid_utf8 t \<Longrightarrow> valid_utf8 (quote_single t)"
proof -
  assume t: "valid_utf8 t"
  have q: "valid_utf8 [CHR 0x27]" by (simp add: utf8_char_def)
  have "quote_single t = [CHR 0x27] @ t @ [CHR 0x27]" by (simp add: quote_single_def)
  then show ?thesis using q t by (simp only: valid_utf8_append)
qed

theorem dot_stays_on_boundary_witness:
  "buffer_ok (CodeBuffer (State cafe_widget)) \<and> valid_Config example_extern example_Config
   \<and> (\<exists>w'. Handle_all example_extern cafe_widget
               [KeyEvent (K Backspace), KeyEvent (K 0x65), KeyEvent (K 0x78),
                PasteSetting True, KeyEvent (K 0xE9), PasteSetting False, KeyEvent (K Enter)]
               = Some w'
             \<and> rune_boundary (Content (CodeBuffer (State w'))) (nat (Dot (CodeBuffer (State w'))))
             \<and> buffer_ok (CodeBuffer (State w')))"
proof -
  have ok: "buffer_ok (CodeBuffer \<lparr>CodeBuffer =
              \<lparr>Content = [CHR ''c'', CHR ''a'', CHR ''f'', CHR 0xC3, CHR 0xA9], Dot = 5\<rparr>\<rparr>)"
    by (simp add: buffer_ok_def buffer_inv_def utf8_char_def cont_def)
  have ov: "\<forall>event s. dot_ok (CodeBuffer s) \<longrightarrow>
              dot_ok (CodeBuffer (snd (OverlayHandler example_Config event s)))"
    by (simp add: example_Config_def DummyHandler_def)
  have cfg: "valid_Config example_extern example_Config"
    by (simp add: valid_Config_def config_inv_def example_Config_def example_extern_def
          DummyHandler_def valid_utf8_quote_single utf8_char_def)
  have ok': "buffer_ok (CodeBuffer (State cafe_widget))"
    using ok by (simp add: cafe_widget_def NewWithState_def)
  show ?thesis
    using ok' cfg
      dot_stays_on_boundary [OF ok ov, of example_extern
        "[KeyEvent (K Backspace), KeyEvent (K 0x65), KeyEvent (K 0x78),
          PasteSetting True, KeyEvent (K 0xE9), PasteSetting False, KeyEvent (K Enter)]"]
    unfolding cafe_widget_def by blast
qed

end
